theory Spec2Isabelle
  imports Main "HOL-Library.AList"
begin

section \<open>BiblioDrift: the shelf library and its synchronisation\<close>

text \<open>
  The model follows \<^verbatim>\<open>LibraryManager\<close> and \<^verbatim>\<open>BookshelfRenderer3D\<close> of the
  front end. A JavaScript object whose properties are arrays of books is an association
  list from property names to book lists: property order is list order (what
  \<^verbatim>\<open>for (const shelf in this.library)\<close> walks), \<^verbatim>\<open>obj[k]\<close> is \<open>map_of\<close>
  (\<open>None\<close> for \<^verbatim>\<open>undefined\<close>) and \<^verbatim>\<open>obj[k] = v\<close> is \<open>AList.update\<close> (in place
  for a property that exists, appended otherwise). Exceptions are values of \<open>js_error\<close>;
  for an \<^verbatim>\<open>async\<close> function, \<open>Threw\<close> is the rejection of its promise. The requests
  to the backend and the rendering are outside the model: an operation is modelled up to
  what it does to the library and to the stored item, and what it needs from outside (the
  time, the answer of the backend) is an argument. The item \<^verbatim>\<open>bibliodrift_user\<close>,
  which the application writes at login, is taken to parse.
\<close>

subsection \<open>Data\<close>

datatype js_error = TypeError | SyntaxError

text \<open>\<^verbatim>\<open>volumeInfo\<close>: the catalog fields the code reads and writes.\<close>

record volume_info =
  title :: string
  authors :: "string list"
  thumbnail :: "string option"
  description :: "string option"
  categories :: "string list"

text \<open>
  A book object. \<open>book_id\<close> is the property \<^verbatim>\<open>id\<close> (the catalog identifier),
  \<open>db_id\<close> the identifier given by the backend (\<open>None\<close> when the property is
  missing), \<open>progress\<close> is \<open>Some n\<close> for a number and \<open>None\<close> for
  \<^verbatim>\<open>null\<close> or a missing property, \<open>other\<close> holds every further property.
\<close>

record book =
  book_id :: string
  db_id :: "nat option"
  volumeInfo :: volume_info
  progress :: "int option"
  date_added :: "string option"
  other :: "(string \<times> string) list"

text \<open>One entry of \<^verbatim>\<open>data.library\<close>, the backend's answer.\<close>

record item =
  item_id :: nat
  google_books_id :: string
  item_title :: string
  item_authors :: "string option"
  item_thumbnail :: "string option"
  shelf_type :: string
  created_at :: "string option"

type_synonym library = "(string \<times> book list) list"

text \<open>
  The item \<^verbatim>\<open>bibliodrift_library\<close> of \<^verbatim>\<open>localStorage\<close>: missing, a text that
  \<^verbatim>\<open>JSON.parse\<close> rejects, or the JSON text of an object of book arrays, with
  whatever properties. Every reader of the item is \<^verbatim>\<open>JSON.parse(getItem(key)) || d\<close>,
  so the text of a falsy value (\<^verbatim>\<open>null\<close>) behaves as the missing item does.
\<close>

datatype storage = No_item | Invalid_text | Stored library

text \<open>\<^verbatim>\<open>LibraryManager\<close>: \<^verbatim>\<open>this.library\<close> together with the stored item.\<close>

record manager =
  library :: library
  storage :: storage

datatype 'a outcome = Returned 'a | Threw js_error

definition default_library :: library where
  "default_library = [(''current'', []), (''want'', []), (''finished'', [])]"

definition shelf_names :: "string list" where
  "shelf_names = [''current'', ''want'', ''finished'']"

text \<open>The books under a property, none when the property is missing.\<close>

definition shelf_books :: "library \<Rightarrow> string \<Rightarrow> book list" where
  "shelf_books lib k = (case map_of lib k of None \<Rightarrow> [] | Some bs \<Rightarrow> bs)"

definition ids_of :: "book list \<Rightarrow> string set" where
  "ids_of bs = book_id ` set bs"

text \<open>JavaScript truthiness of \<^verbatim>\<open>book.db_id\<close>: a missing property and \<open>0\<close> are falsy.\<close>

definition truthy_id :: "nat option \<Rightarrow> bool" where
  "truthy_id d = (case d of None \<Rightarrow> False | Some n \<Rightarrow> n \<noteq> 0)"

subsection \<open>The constructor: loading\<close>

text \<open>
  \<^verbatim>\<open>this.library = JSON.parse(localStorage.getItem(this.storageKey)) || {current: [], want: [], finished: []}\<close>.
  \<^verbatim>\<open>getItem\<close> gives \<^verbatim>\<open>null\<close> for a missing item and \<^verbatim>\<open>JSON.parse(null)\<close> is
  \<^verbatim>\<open>null\<close>; a text that is not JSON makes \<^verbatim>\<open>JSON.parse\<close> throw; an object is truthy.
\<close>

fun load :: "storage \<Rightarrow> js_error + library" where
  "load No_item = Inr default_library"
| "load Invalid_text = Inl SyntaxError"
| "load (Stored lib) = Inr lib"

definition saveLocally :: "manager \<Rightarrow> manager" where
  "saveLocally m = m\<lparr>storage := Stored (library m)\<rparr>"

subsection \<open>Pulling the backend's snapshot\<close>

text \<open>\<^verbatim>\<open>item.authors.split(', ')\<close>; the first argument collects the current piece, reversed.\<close>

fun split_authors :: "string \<Rightarrow> string \<Rightarrow> string list" where
  "split_authors acc [] = [rev acc]"
| "split_authors acc (c # d # cs) =
     (if c = CHR '','' \<and> d = CHR '' '' then rev acc # split_authors [] cs
      else split_authors (c # acc) (d # cs))"
| "split_authors acc [c] = [rev (c # acc)]"

text \<open>
  Step 1 of the merge: \<^verbatim>\<open>localBooksMap\<close>, from a book's id to the book and its shelf.
  A later \<^verbatim>\<open>set\<close> replaces an earlier one. A missing shelf makes
  \<^verbatim>\<open>this.library[shelf].forEach\<close> throw.
\<close>

type_synonym books_map = "string \<rightharpoonup> book \<times> string"

definition index_shelf :: "string \<Rightarrow> book list \<Rightarrow> books_map \<Rightarrow> books_map" where
  "index_shelf shelf bs m = foldl (\<lambda>m b. m(book_id b \<mapsto> (b, shelf))) m bs"

fun build_map :: "library \<Rightarrow> string list \<Rightarrow> books_map \<Rightarrow> js_error + books_map" where
  "build_map lib [] m = Inr m"
| "build_map lib (shelf # shelves) m =
     (case map_of lib shelf of
        None \<Rightarrow> Inl TypeError
      | Some bs \<Rightarrow> build_map lib shelves (index_shelf shelf bs m))"

text \<open>The \<^verbatim>\<open>remoteBook\<close> object built for an item; \<open>now\<close> is \<^verbatim>\<open>new Date().toISOString()\<close>.\<close>

definition remoteBook :: "string \<Rightarrow> item \<Rightarrow> (book \<times> string) option \<Rightarrow> book" where
  "remoteBook now it existing =
     \<lparr> book_id = google_books_id it,
       db_id = Some (item_id it),
       volumeInfo =
         \<lparr> title = item_title it,
           authors = (case item_authors it of
                        None \<Rightarrow> []
                      | Some a \<Rightarrow> if a = [] then [] else split_authors [] a),
           thumbnail = item_thumbnail it,
           description = None,
           categories = [] \<rparr>,
       progress = (case existing of
                     Some (b, shelf) \<Rightarrow> progress b
                   | None \<Rightarrow> if shelf_type it = ''current'' then Some 0 else None),
       date_added = Some (case created_at it of
                            None \<Rightarrow> now
                          | Some d \<Rightarrow> if d = [] then now else d),
       other = [] \<rparr>"

text \<open>
  \<^verbatim>\<open>Object.assign(existing.book, remoteBook)\<close>: the properties of the remote book are
  written over the local object, which keeps its further properties.
\<close>

definition assign :: "book \<Rightarrow> book \<Rightarrow> book" where
  "assign target source = source\<lparr>other := other target\<rparr>"

text \<open>
  The object that \<^verbatim>\<open>localBooksMap\<close> holds for an id is the last one with that id on
  its shelf (a later \<^verbatim>\<open>set\<close> replaced the earlier ones), and nothing changes it
  before the first item with its id is handled; changing that object in place changes
  this element of the shelf.
\<close>

fun update_last :: "('a \<Rightarrow> bool) \<Rightarrow> ('a \<Rightarrow> 'a) \<Rightarrow> 'a list \<Rightarrow> 'a list" where
  "update_last P f [] = []"
| "update_last P f (x # xs) =
     (if P x \<and> \<not> list_ex P xs then f x # xs else x # update_last P f xs)"

text \<open>Changing the array under a property in place; nothing happens without the property.\<close>

definition modify_shelf :: "string \<Rightarrow> (book list \<Rightarrow> book list) \<Rightarrow> library \<Rightarrow> library" where
  "modify_shelf k f lib = (case map_of lib k of None \<Rightarrow> lib | Some bs \<Rightarrow> AList.update k (f bs) lib)"

text \<open>
  Step 2 for one item. The result carries the exception, if one was thrown, and the
  library as it stands then.
\<close>

definition process_item ::
  "string \<Rightarrow> item \<Rightarrow> books_map \<Rightarrow> library \<Rightarrow> js_error option \<times> books_map \<times> library" where
  "process_item now it m lib =
     (let gid = google_books_id it;
          existing = m gid;
          rb = remoteBook now it existing
      in case existing of
           Some (b, shelf) \<Rightarrow>
             if shelf \<noteq> shelf_type it then
               (case map_of lib shelf of
                  None \<Rightarrow> (Some TypeError, m, lib)
                | Some bs \<Rightarrow>
                    let lib1 = AList.update shelf (filter (\<lambda>b. book_id b \<noteq> gid) bs) lib
                    in (case map_of lib1 (shelf_type it) of
                          None \<Rightarrow> (Some TypeError, m, lib1)
                        | Some ts \<Rightarrow>
                            (None, m(gid := None),
                             AList.update (shelf_type it) (ts @ [rb]) lib1)))
             else
               (None, m(gid := None),
                modify_shelf shelf (update_last (\<lambda>b. book_id b = gid) (\<lambda>b. assign b rb)) lib)
         | None \<Rightarrow>
             (case map_of lib (shelf_type it) of
                Some ts \<Rightarrow> (None, m, AList.update (shelf_type it) (ts @ [rb]) lib)
              | None \<Rightarrow> (None, m, lib)))"

fun process_items ::
  "string \<Rightarrow> item list \<Rightarrow> books_map \<Rightarrow> library \<Rightarrow> js_error option \<times> library" where
  "process_items now [] m lib = (None, lib)"
| "process_items now (it # its) m lib =
     (case process_item now it m lib of
        (Some e, m', lib') \<Rightarrow> (Some e, lib')
      | (None, m', lib') \<Rightarrow> process_items now its m' lib')"

text \<open>
  Steps 1 and 2 together: the merge that \<^verbatim>\<open>syncWithBackend\<close> makes of
  \<^verbatim>\<open>data.library\<close> into \<^verbatim>\<open>this.library\<close>. An exception is caught by
  \<^verbatim>\<open>syncWithBackend\<close> (\<^verbatim>\<open>Sync failed\<close>); the library then keeps what was done up
  to there.
\<close>

definition merge_remote :: "string \<Rightarrow> item list \<Rightarrow> library \<Rightarrow> js_error option \<times> library" where
  "merge_remote now its lib =
     (case build_map lib shelf_names Map.empty of
        Inl e \<Rightarrow> (Some e, lib)
      | Inr m \<Rightarrow> process_items now its m lib)"

subsection \<open>Pushing the local books\<close>

text \<open>
  \<^verbatim>\<open>itemsToSync\<close> of \<^verbatim>\<open>syncLocalToBackend\<close>: \<^verbatim>\<open>{...book, shelf: shelf}\<close> is the pair
  of the book and its shelf.
\<close>

definition itemsToSync :: "library \<Rightarrow> (book \<times> string) list" where
  "itemsToSync lib =
     concat (map (\<lambda>shelf. case map_of lib shelf of
                             None \<Rightarrow> []
                           | Some bs \<Rightarrow> map (\<lambda>b. (b, shelf)) (filter (\<lambda>b. \<not> truthy_id (db_id b)) bs))
                 shelf_names)"

subsection \<open>Finding, removing and adding\<close>

fun findBook :: "string \<Rightarrow> library \<Rightarrow> bool" where
  "findBook i [] = False"
| "findBook i ((shelf, bs) # lib) = (if list_ex (\<lambda>b. book_id b = i) bs then True else findBook i lib)"

fun findBookShelf :: "string \<Rightarrow> library \<Rightarrow> string option" where
  "findBookShelf i [] = None"
| "findBookShelf i ((shelf, bs) # lib) =
     (if list_ex (\<lambda>b. book_id b = i) bs then Some shelf else findBookShelf i lib)"

fun findBookInShelf :: "string \<Rightarrow> library \<Rightarrow> (string \<times> book) option" where
  "findBookInShelf i [] = None"
| "findBookInShelf i ((shelf, bs) # lib) =
     (case find (\<lambda>b. book_id b = i) bs of
        Some b \<Rightarrow> Some (shelf, b)
      | None \<Rightarrow> findBookInShelf i lib)"

text \<open>
  \<^verbatim>\<open>removeBook\<close>, up to the request to the backend, which changes nothing locally.
  The books with the id leave the first shelf, in the order of the properties, that holds
  one.
\<close>

definition removeBook :: "string \<Rightarrow> manager \<Rightarrow> bool \<times> manager" where
  "removeBook i m =
     (case findBookInShelf i (library m) of
        Some (shelf, b) \<Rightarrow>
          (True,
           saveLocally
             (m\<lparr>library :=
                  AList.update shelf
                    (filter (\<lambda>b. book_id b \<noteq> i) (shelf_books (library m) shelf)) (library m)\<rparr>))
      | None \<Rightarrow> (False, m))"

text \<open>
  The answer to the \<^verbatim>\<open>POST\<close> of \<^verbatim>\<open>addBook\<close>: none (no user, a failure, an answer
  that is not ok), or the identifier \<^verbatim>\<open>data.item.id\<close>.
\<close>

datatype post_result = No_post | Post_ok nat

text \<open>
  \<^verbatim>\<open>addBook(book, shelf)\<close>. A book found on another shelf is removed there first
  (\<^verbatim>\<open>Let's implement move: Remove from old, add to new\<close>). \<open>enrich\<close> is
  \<^verbatim>\<open>enrichedBook\<close>; \<open>push_book\<close> is the rest of the function: the push, which
  throws without the target shelf, the save, and (\<open>stamp\<close>) the identifier of the
  backend stored in the pushed object when the \<^verbatim>\<open>POST\<close> succeeds.
\<close>

definition enrich :: "book \<Rightarrow> string \<Rightarrow> string \<Rightarrow> book" where
  "enrich b shelf now =
     b\<lparr>progress := (if shelf = ''current'' then Some 0 else None), date_added := Some now\<rparr>"

definition stamp :: "post_result \<Rightarrow> book \<Rightarrow> book" where
  "stamp post e = (case post of No_post \<Rightarrow> e | Post_ok n \<Rightarrow> e\<lparr>db_id := Some n\<rparr>)"

definition push_book :: "book \<Rightarrow> string \<Rightarrow> post_result \<Rightarrow> manager \<Rightarrow> unit outcome \<times> manager" where
  "push_book e shelf post m =
     (case map_of (library m) shelf of
        None \<Rightarrow> (Threw TypeError, m)
      | Some bs \<Rightarrow>
          (Returned (),
           saveLocally
             (m\<lparr>library :=
                  AList.update shelf (bs @ [stamp post e]) (library m)\<rparr>)))"

definition addBook ::
  "book \<Rightarrow> string \<Rightarrow> string \<Rightarrow> post_result \<Rightarrow> manager \<Rightarrow> unit outcome \<times> manager" where
  "addBook b shelf now post m =
     (if findBook (book_id b) (library m) then
        (case findBookShelf (book_id b) (library m) of
           None \<Rightarrow> push_book (enrich b shelf now) shelf post m
         | Some existingShelf \<Rightarrow>
             if existingShelf = shelf then (Returned (), m)
             else if existingShelf \<noteq> [] then
               push_book (enrich b shelf now) shelf post (snd (removeBook (book_id b) m))
             else push_book (enrich b shelf now) shelf post m)
      else push_book (enrich b shelf now) shelf post m)"

subsection \<open>Moving a book between shelves (the 3D shelf view)\<close>

text \<open>\<^verbatim>\<open>findIndex\<close>: the first position that satisfies the test.\<close>

fun findIndex :: "('a \<Rightarrow> bool) \<Rightarrow> 'a list \<Rightarrow> nat option" where
  "findIndex P [] = None"
| "findIndex P (x # xs) =
     (if P x then Some 0 else (case findIndex P xs of None \<Rightarrow> None | Some n \<Rightarrow> Some (Suc n)))"

text \<open>\<^verbatim>\<open>JSON.parse(localStorage.getItem(storageKey)) || {}\<close>, for a text that parses.\<close>

definition parsed_or_empty :: "storage \<Rightarrow> library" where
  "parsed_or_empty st = (case st of Stored l \<Rightarrow> l | _ \<Rightarrow> [])"

text \<open>\<^verbatim>\<open>if (!localLibrary[shelf]) localLibrary[shelf] = []\<close>; an array is truthy.\<close>

definition ensure_shelf :: "string \<Rightarrow> library \<Rightarrow> library" where
  "ensure_shelf k l = (if map_of l k = None then AList.update k [] l else l)"

text \<open>
  \<^verbatim>\<open>moveBook(bookId, fromShelf, toShelf)\<close> works on the stored item only. A book that
  is not on the source shelf is reported with \<^verbatim>\<open>console.error\<close> and the function
  returns. The test \<^verbatim>\<open>b.id === bookId || (b.volumeInfo && b.id === bookId)\<close> is
  \<^verbatim>\<open>b.id === bookId\<close>.
\<close>

definition moveBook :: "string \<Rightarrow> string \<Rightarrow> string \<Rightarrow> storage \<Rightarrow> unit outcome \<times> storage" where
  "moveBook bookId fromShelf toShelf st =
     (if fromShelf = toShelf then (Returned (), st)
      else
        (case st of
           Invalid_text \<Rightarrow> (Threw SyntaxError, st)
         | _ \<Rightarrow>
             (let localLibrary = ensure_shelf toShelf (ensure_shelf fromShelf (parsed_or_empty st));
                  src = shelf_books localLibrary fromShelf
              in case findIndex (\<lambda>b. book_id b = bookId) src of
                   None \<Rightarrow> (Returned (), st)
                 | Some i \<Rightarrow>
                     (let l3 = AList.update fromShelf (take i src @ drop (Suc i) src) localLibrary;
                          l4 = AList.update toShelf (shelf_books l3 toShelf @ [src ! i]) l3
                      in (Returned (), Stored l4)))))"

text \<open>The books that the stored item holds under a property.\<close>

definition stored_books :: "storage \<Rightarrow> string \<Rightarrow> book list" where
  "stored_books st k = shelf_books (parsed_or_empty st) k"

subsection \<open>Well-formed collections\<close>

text \<open>A collection of the three shelves, as the default one and every saved one is.\<close>

definition shaped :: "library \<Rightarrow> bool" where
  "shaped lib = (map fst lib = shelf_names)"

text \<open>No id is on two shelves.\<close>

definition one_shelf_each :: "library \<Rightarrow> bool" where
  "one_shelf_each lib =
     (\<forall>k k'. k \<noteq> k' \<longrightarrow> ids_of (shelf_books lib k) \<inter> ids_of (shelf_books lib k') = {})"

text \<open>No id twice on a shelf and no id on two shelves.\<close>

definition unique_ids :: "library \<Rightarrow> bool" where
  "unique_ids lib = ((\<forall>k. distinct (map book_id (shelf_books lib k))) \<and> one_shelf_each lib)"

text \<open>
  The library of the manager is a collection of the three shelves without a repeated
  id, and so is the stored item when it is an object with its shelves under distinct
  names.
\<close>

definition clean :: "manager \<Rightarrow> bool" where
  "clean m =
     (shaped (library m) \<and> unique_ids (library m) \<and>
      (case storage m of Stored l \<Rightarrow> distinct (map fst l) \<and> unique_ids l | _ \<Rightarrow> True))"

text \<open>
  Sequences of operations: \<^verbatim>\<open>addBook\<close> of the manager and \<^verbatim>\<open>moveBook\<close> of the
  shelf view, which reads and writes the stored item.
\<close>

datatype operation = Add book string string post_result | Move string string string

fun step :: "operation \<Rightarrow> manager \<Rightarrow> manager" where
  "step (Add b shelf now post) m = snd (addBook b shelf now post m)"
| "step (Move bookId fromShelf toShelf) m = m\<lparr>storage := snd (moveBook bookId fromShelf toShelf (storage m))\<rparr>"

fun run :: "operation list \<Rightarrow> manager \<Rightarrow> manager" where
  "run [] m = m"
| "run (op # ops) m = run ops (step op m)"


text \<open>Every shelf that \<^verbatim>\<open>localBooksMap\<close> records is one of the three.\<close>

definition valid_map :: "books_map \<Rightarrow> bool" where
  "valid_map m = (\<forall>x b s. m x = Some (b, s) \<longrightarrow> s \<in> set shelf_names)"

subsection \<open>Example data\<close>

definition sample_volume :: volume_info where
  "sample_volume = \<lparr> title = ''Dune'', authors = [''Frank Herbert''], thumbnail = None,
                      description = None, categories = [] \<rparr>"

definition sample_book :: "string \<Rightarrow> nat option \<Rightarrow> int option \<Rightarrow> book" where
  "sample_book i d p = \<lparr> book_id = i, db_id = d, volumeInfo = sample_volume, progress = p,
                          date_added = None, other = [] \<rparr>"

definition sample_item :: "nat \<Rightarrow> string \<Rightarrow> string \<Rightarrow> item" where
  "sample_item n i shelf = \<lparr> item_id = n, google_books_id = i, item_title = ''Dune'',
                              item_authors = Some ''Frank Herbert'', item_thumbnail = None,
                              shelf_type = shelf, created_at = Some ''2024-01-01'' \<rparr>"

section \<open>Properties\<close>

subsection \<open>Objects as association lists\<close>

lemma map_of_update_if: "map_of (AList.update k v al) k' = (if k' = k then Some v else map_of al k')"
  by (simp add: update_conv')

lemma shelf_books_update: "shelf_books (AList.update k v lib) k' = (if k' = k then v else shelf_books lib k')"
  by (simp add: shelf_books_def map_of_update_if)

lemma keys_update: "k \<in> set (map fst lib) \<Longrightarrow> map fst (AList.update k v lib) = map fst lib"
  by (simp add: update_keys)

lemma map_of_shelf_books: "k \<in> set (map fst lib) \<Longrightarrow> map_of lib k = Some (shelf_books lib k)"
  by (cases "map_of lib k") (auto simp: shelf_books_def map_of_eq_None_iff)

lemma shelf_books_member:
  "distinct (map fst lib) \<Longrightarrow> (k, bs) \<in> set lib \<Longrightarrow> shelf_books lib k = bs"
  by (simp add: shelf_books_def)

lemma shelf_books_nonempty_key: "shelf_books lib k \<noteq> [] \<Longrightarrow> k \<in> set (map fst lib)"
  by (cases "map_of lib k") (force simp: shelf_books_def dest!: map_of_SomeD)+

lemma list_ex_ids: "list_ex (\<lambda>b. book_id b = i) bs \<longleftrightarrow> i \<in> ids_of bs"
  by (auto simp: list_ex_iff ids_of_def)

lemma findBook_iff: "findBook i lib \<longleftrightarrow> (\<exists>(k, bs)\<in>set lib. i \<in> ids_of bs)"
  by (induction lib) (auto simp: list_ex_ids)

lemma findBookShelf_None: "findBookShelf i lib = None \<longleftrightarrow> \<not> findBook i lib"
  by (induction lib) (auto simp: list_ex_ids split: if_splits)

lemma findBookShelf_Some:
  "findBookShelf i lib = Some s \<Longrightarrow> \<exists>bs. (s, bs) \<in> set lib \<and> i \<in> ids_of bs"
  by (induction lib) (auto simp: list_ex_ids split: if_splits)

lemma find_ids: "find (\<lambda>b. book_id b = i) bs = None \<longleftrightarrow> i \<notin> ids_of bs"
  by (auto simp: find_None_iff ids_of_def)

lemma findBookInShelf_shelf: "map_option fst (findBookInShelf i lib) = findBookShelf i lib"
proof (induction lib)
  case Nil
  then show ?case by simp
next
  case (Cons p lib)
  obtain k bs where p: "p = (k, bs)" by (cases p)
  show ?case
  proof (cases "i \<in> ids_of bs")
    case True
    then obtain b where "find (\<lambda>b. book_id b = i) bs = Some b"
      using find_ids [of i bs] by (cases "find (\<lambda>b. book_id b = i) bs") auto
    with True p show ?thesis by (simp add: list_ex_ids)
  next
    case False
    with p Cons.IH show ?thesis by (simp add: list_ex_ids find_ids [THEN iffD2])
  qed
qed

lemma findBook_present:
  "distinct (map fst lib) \<Longrightarrow> findBook i lib \<longleftrightarrow> (\<exists>k. i \<in> ids_of (shelf_books lib k))"
proof
  assume d: "distinct (map fst lib)" and "findBook i lib"
  then obtain k bs where "(k, bs) \<in> set lib" "i \<in> ids_of bs"
    by (auto simp: findBook_iff)
  with d show "\<exists>k. i \<in> ids_of (shelf_books lib k)"
    by (auto simp: shelf_books_member intro!: exI [of _ k])
next
  assume d: "distinct (map fst lib)" and "\<exists>k. i \<in> ids_of (shelf_books lib k)"
  then obtain k where k: "i \<in> ids_of (shelf_books lib k)" by blast
  then have "shelf_books lib k \<noteq> []" by (auto simp: ids_of_def)
  then have "map_of lib k = Some (shelf_books lib k)"
    by (intro map_of_shelf_books shelf_books_nonempty_key)
  then have "(k, shelf_books lib k) \<in> set lib" by (rule map_of_SomeD)
  with k show "findBook i lib" by (auto simp: findBook_iff)
qed

lemma findBookShelf_present:
  assumes "distinct (map fst lib)" and "findBookShelf i lib = Some s"
  shows "i \<in> ids_of (shelf_books lib s) \<and> s \<in> set (map fst lib)"
proof -
  obtain bs where "(s, bs) \<in> set lib" "i \<in> ids_of bs"
    using findBookShelf_Some [OF assms(2)] by blast
  with assms(1) show ?thesis by (force simp: shelf_books_member)
qed

lemma shelf_books_ensure: "shelf_books (ensure_shelf k l) k' = shelf_books l k'"
  by (auto simp: ensure_shelf_def shelf_books_update) (simp add: shelf_books_def)

subsection \<open>Searching\<close>

lemma findIndex_None: "findIndex P xs = None \<longleftrightarrow> (\<forall>x\<in>set xs. \<not> P x)"
  by (induction xs) (auto split: option.splits)

lemma findIndex_Some: "findIndex P xs = Some i \<Longrightarrow> i < length xs \<and> P (xs ! i) \<and> (\<forall>j<i. \<not> P (xs ! j))"
proof (induction xs arbitrary: i)
  case Nil
  then show ?case by simp
next
  case (Cons x xs)
  show ?case
  proof (cases "P x")
    case True
    with Cons.prems show ?thesis by simp
  next
    case False
    with Cons.prems obtain n where n: "findIndex P xs = Some n" "i = Suc n"
      by (auto split: option.splits)
    from Cons.IH [OF n(1)] False n(2) show ?thesis
      by (auto simp: nth_Cons split: nat.splits)
  qed
qed

subsection \<open>Loading\<close>

text \<open>
  Claim C8, as the code has it. The constructor gives the default collection of three
  empty shelves when the item is missing. It does not fail soft on a malformed item: a
  text that is not JSON makes \<^verbatim>\<open>JSON.parse\<close> throw a SyntaxError out of the
  constructor, and a stored object is taken as it is, whatever shelves it has.
\<close>

theorem load_cases:
  "load No_item = Inr default_library \<and> load Invalid_text = Inl SyntaxError
   \<and> load (Stored lib) = Inr lib"
  by simp

theorem load_cases_witness:
  "load (Stored [(''want'', [])]) = Inr [(''want'', [])]"
  using load_cases [of "[(''want'', [])]"] by (rule conjunct2 [THEN conjunct2])

theorem load_malformed_counterexample:
  "load Invalid_text = Inl SyntaxError \<and> load (Stored []) = Inr [] \<and> [] \<noteq> default_library"
  by (simp add: default_library_def)

subsection \<open>Moving\<close>

text \<open>
  Claim C7, as the code has it. \<^verbatim>\<open>moveBook\<close> with equal source and target shelf
  returns at once and changes nothing. When the stored item parses and holds no book
  with the given id on the source shelf, \<^verbatim>\<open>moveBook\<close> does not fail: it writes to
  \<^verbatim>\<open>console.error\<close>, returns normally and leaves the stored item as it was. No
  NotFoundError exists in the code.
\<close>

theorem moveBook_quiet:
  "moveBook i s s st = (Returned (), st) \<and>
   (st \<noteq> Invalid_text \<longrightarrow> i \<notin> ids_of (stored_books st f) \<longrightarrow> moveBook i f t st = (Returned (), st))"
proof (intro conjI impI)
  show "moveBook i s s st = (Returned (), st)" by (simp add: moveBook_def)
next
  assume ok: "st \<noteq> Invalid_text" and absent: "i \<notin> ids_of (stored_books st f)"
  have "findIndex (\<lambda>b. book_id b = i)
          (shelf_books (ensure_shelf t (ensure_shelf f (parsed_or_empty st))) f) = None"
    using absent by (auto simp: findIndex_None ids_of_def stored_books_def shelf_books_ensure)
  then show "moveBook i f t st = (Returned (), st)"
    using ok by (cases st) (simp_all add: moveBook_def Let_def)
qed

theorem moveBook_quiet_witness:
  "moveBook ''b1'' ''want'' ''want'' No_item = (Returned (), No_item) \<and>
   moveBook ''b1'' ''want'' ''finished'' No_item = (Returned (), No_item)"
  using moveBook_quiet [of "''b1''" "''want''" No_item "''want''" "''finished''"]
  by (simp add: stored_books_def ids_of_def parsed_or_empty_def shelf_books_def)

theorem moveBook_not_found_counterexample:
  "moveBook ''b1'' ''want'' ''finished'' (Stored default_library)
     = (Returned (), Stored default_library)"
  by (simp add: moveBook_def default_library_def shelf_books_def parsed_or_empty_def ensure_shelf_def)

subsection \<open>Removing\<close>

lemma removeBook_absent:
  assumes "distinct (map fst (library m))" and "\<forall>k. i \<notin> ids_of (shelf_books (library m) k)"
  shows "removeBook i m = (False, m)"
proof -
  have "\<not> findBook i (library m)" using assms by (simp add: findBook_present)
  then have "findBookShelf i (library m) = None" by (simp add: findBookShelf_None)
  then have "findBookInShelf i (library m) = None"
    using findBookInShelf_shelf [of i "library m"] by simp
  then show ?thesis by (simp add: removeBook_def)
qed

lemma removeBook_present:
  assumes d: "distinct (map fst (library m))" and "i \<in> ids_of (shelf_books (library m) k)"
  shows "\<exists>s. findBookShelf i (library m) = Some s \<and> i \<in> ids_of (shelf_books (library m) s)
           \<and> s \<in> set (map fst (library m))
           \<and> removeBook i m =
               (True, \<lparr>library = AList.update s (filter (\<lambda>b. book_id b \<noteq> i) (shelf_books (library m) s)) (library m),
                       storage = Stored (AList.update s (filter (\<lambda>b. book_id b \<noteq> i) (shelf_books (library m) s)) (library m))\<rparr>)"
proof -
  have "findBook i (library m)" using assms by (auto simp: findBook_present)
  then obtain s where s: "findBookShelf i (library m) = Some s"
    using findBookShelf_None [of i "library m"] by (cases "findBookShelf i (library m)") auto
  then obtain b where b: "findBookInShelf i (library m) = Some (s, b)"
    using findBookInShelf_shelf [of i "library m"]
    by (cases "findBookInShelf i (library m)") auto
  from b have "removeBook i m =
               (True, \<lparr>library = AList.update s (filter (\<lambda>b. book_id b \<noteq> i) (shelf_books (library m) s)) (library m),
                       storage = Stored (AList.update s (filter (\<lambda>b. book_id b \<noteq> i) (shelf_books (library m) s)) (library m))\<rparr>)"
    by (simp add: removeBook_def saveLocally_def)
  with s findBookShelf_present [OF d s] show ?thesis by blast
qed

text \<open>
  Claim C10. For a library object (no property name twice): when some shelf holds a
  book with the given id, \<^verbatim>\<open>removeBook\<close> returns \<^verbatim>\<open>true\<close>; one shelf \<open>s\<close>
  that held the id loses exactly its books with that id, every other shelf and the
  set of shelves stay as they were, and the result is saved. When no shelf holds the id,
  \<^verbatim>\<open>removeBook\<close> returns \<^verbatim>\<open>false\<close>, raises nothing and changes neither the
  library nor the stored item.
\<close>

theorem removeBook_contract:
  assumes d: "distinct (map fst (library m))"
  shows "((\<exists>k. i \<in> ids_of (shelf_books (library m) k)) \<longrightarrow>
            (\<exists>s m'. removeBook i m = (True, m')
               \<and> i \<in> ids_of (shelf_books (library m) s)
               \<and> shelf_books (library m') s = filter (\<lambda>b. book_id b \<noteq> i) (shelf_books (library m) s)
               \<and> (\<forall>k. k \<noteq> s \<longrightarrow> shelf_books (library m') k = shelf_books (library m) k)
               \<and> map fst (library m') = map fst (library m)
               \<and> storage m' = Stored (library m')))
       \<and> ((\<forall>k. i \<notin> ids_of (shelf_books (library m) k)) \<longrightarrow> removeBook i m = (False, m))"
proof (intro conjI impI)
  assume "\<exists>k. i \<in> ids_of (shelf_books (library m) k)"
  then obtain k where "i \<in> ids_of (shelf_books (library m) k)" ..
  from removeBook_present [OF d this] obtain s where
    s: "i \<in> ids_of (shelf_books (library m) s)" "s \<in> set (map fst (library m))"
    and r: "removeBook i m =
               (True, \<lparr>library = AList.update s (filter (\<lambda>b. book_id b \<noteq> i) (shelf_books (library m) s)) (library m),
                       storage = Stored (AList.update s (filter (\<lambda>b. book_id b \<noteq> i) (shelf_books (library m) s)) (library m))\<rparr>)"
    by blast
  show "\<exists>s m'. removeBook i m = (True, m')
               \<and> i \<in> ids_of (shelf_books (library m) s)
               \<and> shelf_books (library m') s = filter (\<lambda>b. book_id b \<noteq> i) (shelf_books (library m) s)
               \<and> (\<forall>k. k \<noteq> s \<longrightarrow> shelf_books (library m') k = shelf_books (library m) k)
               \<and> map fst (library m') = map fst (library m)
               \<and> storage m' = Stored (library m')"
    apply (rule exI [of _ s])
    apply (rule exI)
    apply (rule conjI, rule r)
    using s apply (simp add: shelf_books_update keys_update)
    done
next
  assume "\<forall>k. i \<notin> ids_of (shelf_books (library m) k)"
  with d show "removeBook i m = (False, m)" by (rule removeBook_absent)
qed

theorem removeBook_contract_witness:
  "(\<exists>s m'. removeBook ''b1''
              \<lparr>library = [(''current'', []), (''want'', [sample_book ''b1'' None None]), (''finished'', [])],
               storage = No_item\<rparr> = (True, m')
          \<and> shelf_books (library m') s = [] \<and> storage m' = Stored (library m'))
   \<and> removeBook ''b2''
        \<lparr>library = [(''current'', []), (''want'', [sample_book ''b1'' None None]), (''finished'', [])],
         storage = No_item\<rparr>
       = (False, \<lparr>library = [(''current'', []), (''want'', [sample_book ''b1'' None None]), (''finished'', [])],
                  storage = No_item\<rparr>)"
proof -
  let ?m = "\<lparr>library = [(''current'', []), (''want'', [sample_book ''b1'' None None]), (''finished'', [])],
            storage = No_item\<rparr>"
  have d: "distinct (map fst (library ?m))" by simp
  have p: "\<exists>k. ''b1'' \<in> ids_of (shelf_books (library ?m) k)"
    by (rule exI [of _ "''want''"]) (simp add: ids_of_def shelf_books_def sample_book_def)
  have a: "\<forall>k. ''b2'' \<notin> ids_of (shelf_books (library ?m) k)"
    by (simp add: ids_of_def shelf_books_def sample_book_def)
  from removeBook_contract [OF d, of "''b1''"] p
  have 1: "\<exists>s m'. removeBook ''b1'' ?m = (True, m')
          \<and> shelf_books (library m') s = [] \<and> storage m' = Stored (library m')"
    by (auto simp: ids_of_def shelf_books_def sample_book_def split: if_splits)
  from removeBook_contract [OF d, of "''b2''"] a
  have 2: "removeBook ''b2'' ?m = (False, ?m)" by blast
  from 1 2 show ?thesis by blast
qed

subsection \<open>Adding\<close>

lemma push_book_ok:
  assumes "k \<in> set (map fst (library m))"
  shows "push_book e k post m =
           (Returned (),
            \<lparr>library = AList.update k (shelf_books (library m) k @ [stamp post e]) (library m),
             storage = Stored (AList.update k (shelf_books (library m) k @ [stamp post e]) (library m))\<rparr>)"
  using map_of_shelf_books [OF assms] by (simp add: push_book_def saveLocally_def)

lemma shaped_keys: "shaped lib \<Longrightarrow> set (map fst lib) = set shelf_names \<and> distinct (map fst lib)"
  by (simp add: shaped_def shelf_names_def)

text \<open>
  Claim C5, as the code has it. In a collection of the three shelves where the id of the
  book is on shelf \<open>s\<close> and on no other: adding the book to \<open>s\<close> itself changes
  nothing (library and stored item stay as they are); adding it to another shelf does
  not fail but moves it: \<^verbatim>\<open>addBook\<close> returns normally, the books with that id are
  removed from \<open>s\<close>, the new record (progress reset, \<^verbatim>\<open>date_added\<close> set) is
  appended to the target shelf, the other shelf is untouched and the result is saved.
  No DuplicateInOtherShelfError exists in the code.
\<close>

theorem addBook_on_duplicate:
  assumes sh: "shaped (library m)" and target: "shelf \<in> set shelf_names"
    and here: "book_id b \<in> ids_of (shelf_books (library m) s)"
    and only: "\<forall>k. k \<noteq> s \<longrightarrow> book_id b \<notin> ids_of (shelf_books (library m) k)"
  shows "(s = shelf \<longrightarrow> addBook b shelf now post m = (Returned (), m)) \<and>
         (s \<noteq> shelf \<longrightarrow>
            (\<exists>m'. addBook b shelf now post m = (Returned (), m')
               \<and> shelf_books (library m') s
                   = filter (\<lambda>x. book_id x \<noteq> book_id b) (shelf_books (library m) s)
               \<and> shelf_books (library m') shelf
                   = shelf_books (library m) shelf @ [stamp post (enrich b shelf now)]
               \<and> (\<forall>k. k \<noteq> s \<and> k \<noteq> shelf \<longrightarrow> shelf_books (library m') k = shelf_books (library m) k)
               \<and> storage m' = Stored (library m')))"
proof -
  let ?lib = "library m"
  let ?i = "book_id b"
  have d: "distinct (map fst ?lib)" and keys: "set (map fst ?lib) = set shelf_names"
    using shaped_keys [OF sh] by simp_all
  from removeBook_present [OF d here] obtain s' where
    s': "findBookShelf ?i ?lib = Some s'" "?i \<in> ids_of (shelf_books ?lib s')"
    and r: "removeBook ?i m =
             (True, \<lparr>library = AList.update s' (filter (\<lambda>x. book_id x \<noteq> ?i) (shelf_books ?lib s')) ?lib,
                     storage = Stored (AList.update s' (filter (\<lambda>x. book_id x \<noteq> ?i) (shelf_books ?lib s')) ?lib)\<rparr>)"
    by blast
  from s'(2) only have eq: "s' = s" by blast
  have found: "findBook ?i ?lib" using s'(1) findBookShelf_None [of ?i ?lib] by auto
  from here have "shelf_books ?lib s \<noteq> []" by (auto simp: ids_of_def)
  then have skey: "s \<in> set (map fst ?lib)" by (rule shelf_books_nonempty_key)
  then have "s \<in> set shelf_names" using keys by simp
  then have nonempty: "s \<noteq> []" by (auto simp: shelf_names_def)
  show ?thesis
  proof (intro conjI impI)
    assume "s = shelf"
    with s'(1) eq found show "addBook b shelf now post m = (Returned (), m)"
      by (simp add: addBook_def)
  next
    assume ne: "s \<noteq> shelf"
    let ?l1 = "AList.update s (filter (\<lambda>x. book_id x \<noteq> ?i) (shelf_books ?lib s)) ?lib"
    let ?m1 = "\<lparr>library = ?l1, storage = Stored ?l1\<rparr>"
    have m1: "snd (removeBook ?i m) = ?m1" using r eq by simp
    have "shelf \<in> set (map fst ?l1)"
      using target keys skey by (simp only: keys_update)
    then have "shelf \<in> set (map fst (library ?m1))" by simp
    note p = push_book_ok [OF this, of "enrich b shelf now" post]
    have a: "addBook b shelf now post m = push_book (enrich b shelf now) shelf post ?m1"
      using s'(1) eq found ne nonempty m1 by (simp add: addBook_def)
    show "\<exists>m'. addBook b shelf now post m = (Returned (), m')
               \<and> shelf_books (library m') s
                   = filter (\<lambda>x. book_id x \<noteq> book_id b) (shelf_books (library m) s)
               \<and> shelf_books (library m') shelf
                   = shelf_books (library m) shelf @ [stamp post (enrich b shelf now)]
               \<and> (\<forall>k. k \<noteq> s \<and> k \<noteq> shelf \<longrightarrow> shelf_books (library m') k = shelf_books (library m) k)
               \<and> storage m' = Stored (library m')"
      apply (rule exI)
      apply (rule conjI, rule trans [OF a p])
      using ne apply (simp add: shelf_books_update)
      done
  qed
qed

theorem addBook_on_duplicate_witness:
  "\<exists>m'. addBook (sample_book ''b1'' None None) ''finished'' ''2024-02-02'' (Post_ok 7)
           \<lparr>library = [(''current'', []), (''want'', [sample_book ''b1'' None None]), (''finished'', [])],
            storage = No_item\<rparr> = (Returned (), m')
        \<and> shelf_books (library m') ''want'' = []
        \<and> shelf_books (library m') ''finished''
            = [stamp (Post_ok 7) (enrich (sample_book ''b1'' None None) ''finished'' ''2024-02-02'')]
        \<and> storage m' = Stored (library m')"
proof -
  let ?m = "\<lparr>library = [(''current'', []), (''want'', [sample_book ''b1'' None None]), (''finished'', [])],
            storage = No_item\<rparr>"
  have h1: "shaped (library ?m)" by (simp add: shaped_def shelf_names_def)
  have h2: "''finished'' \<in> set shelf_names" by (simp add: shelf_names_def)
  have h3: "book_id (sample_book ''b1'' None None) \<in> ids_of (shelf_books (library ?m) ''want'')"
    by (simp add: ids_of_def shelf_books_def)
  have h4: "\<forall>k. k \<noteq> ''want'' \<longrightarrow>
              book_id (sample_book ''b1'' None None) \<notin> ids_of (shelf_books (library ?m) k)"
    by (simp add: ids_of_def shelf_books_def)
  have h5: "shelf_books (library ?m) ''want'' = [sample_book ''b1'' None None]"
    and h6: "shelf_books (library ?m) ''finished'' = []"
    by (simp_all add: shelf_books_def)
  from addBook_on_duplicate [OF h1 h2 h3 h4, of "''2024-02-02''" "Post_ok 7"]
  show ?thesis unfolding h5 h6 by simp blast
qed

theorem addBook_on_duplicate_counterexample:
  "addBook (sample_book ''b1'' None None) ''finished'' ''2024-02-02'' No_post
     \<lparr>library = [(''current'', []), (''want'', [sample_book ''b1'' None None]), (''finished'', [])],
      storage = No_item\<rparr>
   = (Returned (),
      \<lparr>library = [(''current'', []), (''want'', []),
                  (''finished'', [(sample_book ''b1'' None None)\<lparr>date_added := Some ''2024-02-02''\<rparr>])],
       storage = Stored [(''current'', []), (''want'', []),
                  (''finished'', [(sample_book ''b1'' None None)\<lparr>date_added := Some ''2024-02-02''\<rparr>])]\<rparr>)"
  by (simp add: addBook_def push_book_def removeBook_def saveLocally_def enrich_def stamp_def
      sample_book_def shelf_books_def)

subsection \<open>The merge, item by item\<close>

lemma shelf_books_modify:
  "f [] = [] \<Longrightarrow>
   shelf_books (modify_shelf k f lib) k' = (if k' = k then f (shelf_books lib k) else shelf_books lib k')"
  by (cases "map_of lib k") (auto simp: modify_shelf_def shelf_books_update, simp_all add: shelf_books_def)

lemma keys_modify: "map fst (modify_shelf k f lib) = map fst lib"
  by (cases "map_of lib k") (auto simp: modify_shelf_def update_keys dest!: map_of_SomeD intro: rev_image_eqI)

lemma update_last_Nil [simp]: "update_last P f [] = []"
  by simp

lemma filter_update_last_other:
  "(\<And>b. P b \<Longrightarrow> \<not> Q b \<and> \<not> Q (f b)) \<Longrightarrow> filter Q (update_last P f xs) = filter Q xs"
  by (induction xs) auto

lemma book_id_remoteBook [simp]: "book_id (remoteBook now it e) = google_books_id it"
  by (simp add: remoteBook_def)

lemma db_id_remoteBook [simp]: "db_id (remoteBook now it e) = Some (item_id it)"
  by (simp add: remoteBook_def)

lemma book_id_assign [simp]: "book_id (assign b rb) = book_id rb"
  by (simp add: assign_def)

lemma progress_assign [simp]: "progress (assign b rb) = progress rb"
  by (simp add: assign_def)

lemma db_id_assign [simp]: "db_id (assign b rb) = db_id rb"
  by (simp add: assign_def)

lemma shelf_update_same:
  "map_of l k0 = Some ts \<Longrightarrow> F v = F ts \<Longrightarrow>
   F (shelf_books (AList.update k0 v l) k) = F (shelf_books l k)"
  by (cases "k = k0") (simp_all add: shelf_books_update, simp add: shelf_books_def)

text \<open>One item leaves alone the books whose ids satisfy a test that its own id fails.\<close>

lemma process_item_filter:
  assumes "\<not> Q (google_books_id it)" and "process_item now it m lib = (e, m', lib')"
  shows "filter (\<lambda>b. Q (book_id b)) (shelf_books lib' k) = filter (\<lambda>b. Q (book_id b)) (shelf_books lib k)"
proof -
  let ?g = "google_books_id it"
  let ?F = "filter (\<lambda>b. Q (book_id b))"
  have drop: "?F (filter (\<lambda>b. book_id b \<noteq> ?g) bs) = ?F bs" for bs
    using assms(1) by (induction bs) auto
  have push: "?F (ts @ [remoteBook now it ex]) = ?F ts" for ts ex
    using assms(1) by simp
  have upd: "?F (update_last (\<lambda>b. book_id b = ?g) (\<lambda>b. assign b (remoteBook now it ex)) bs) = ?F bs"
    for bs ex
    using assms(1) by (intro filter_update_last_other) auto
  have sb: "map_of l k = Some bs \<Longrightarrow> shelf_books l k = bs" for l k bs
    by (simp add: shelf_books_def)
  show ?thesis
  proof (cases "m ?g")
    case None
    show ?thesis
    proof (cases "map_of lib (shelf_type it)")
      case N: None
      with None assms(2) show ?thesis by (simp add: process_item_def)
    next
      case (Some ts)
      with None assms(2) have "lib' = AList.update (shelf_type it) (ts @ [remoteBook now it None]) lib"
        by (simp add: process_item_def)
      then show ?thesis using shelf_update_same [OF Some, of ?F] by (simp only: push)
    qed
  next
    case (Some p)
    obtain b s where p: "p = (b, s)" by (cases p)
    show ?thesis
    proof (cases "s = shelf_type it")
      case True
      with Some p assms(2) have "lib' = modify_shelf s
          (update_last (\<lambda>b. book_id b = ?g) (\<lambda>x. assign x (remoteBook now it (Some (b, s))))) lib"
        by (simp add: process_item_def Let_def)
      then show ?thesis by (simp add: shelf_books_modify upd)
    next
      case False
      show ?thesis
      proof (cases "map_of lib s")
        case None
        with Some p False assms(2) show ?thesis by (simp add: process_item_def Let_def)
      next
        case bs: (Some bs)
        let ?l1 = "AList.update s (filter (\<lambda>b. book_id b \<noteq> ?g) bs) lib"
        have l1: "?F (shelf_books ?l1 k) = ?F (shelf_books lib k)"
          using shelf_update_same [OF bs, of ?F] by (simp only: drop)
        show ?thesis
        proof (cases "map_of ?l1 (shelf_type it)")
          case None
          with Some p False bs assms(2) have "lib' = ?l1" by (simp add: process_item_def Let_def)
          with l1 show ?thesis by simp
        next
          case ts: (Some ts)
          with Some p False bs assms(2)
          have "lib' = AList.update (shelf_type it) (ts @ [remoteBook now it (Some (b, s))]) ?l1"
            by (simp add: process_item_def Let_def)
          then have "?F (shelf_books lib' k) = ?F (shelf_books ?l1 k)"
            using shelf_update_same [OF ts, of ?F] by (simp only: push)
          with l1 show ?thesis by simp
        qed
      qed
    qed
  qed
qed

lemma process_item_map:
  assumes "process_item now it m lib = (e, m', lib')"
  shows "m' = m \<or> m' = m(google_books_id it := None)"
  using assms
  by (auto simp: process_item_def Let_def split: option.splits if_splits prod.splits)

lemma process_item_map_other:
  assumes "process_item now it m lib = (e, m', lib')" and "google_books_id it \<noteq> x"
  shows "m' x = m x"
  using process_item_map [OF assms(1)] assms(2) by auto

lemma shaped_map_of: "shaped lib \<Longrightarrow> k \<in> set shelf_names \<Longrightarrow> map_of lib k = Some (shelf_books lib k)"
  by (rule map_of_shelf_books) (simp add: shaped_def)

lemma shaped_update: "shaped lib \<Longrightarrow> k \<in> set shelf_names \<Longrightarrow> shaped (AList.update k v lib)"
  by (simp add: shaped_def update_keys)

lemma shaped_modify: "shaped lib \<Longrightarrow> shaped (modify_shelf k f lib)"
  by (simp add: shaped_def keys_modify)

lemma valid_map_drop: "valid_map m \<Longrightarrow> valid_map (m(x := None))"
  by (auto simp: valid_map_def)

text \<open>With the three shelves in place and a shelf named by the item, no exception.\<close>

lemma process_item_ok:
  assumes "shaped lib" and "valid_map m" and "shelf_type it \<in> set shelf_names"
  shows "\<exists>m' lib'. process_item now it m lib = (None, m', lib') \<and> shaped lib' \<and> valid_map m'"
proof (cases "m (google_books_id it)")
  case None
  with assms show ?thesis
    by (simp add: process_item_def Let_def shaped_map_of shaped_update)
next
  case (Some p)
  obtain b s where p: "p = (b, s)" by (cases p)
  with Some assms(2) have s: "s \<in> set shelf_names" by (auto simp: valid_map_def)
  show ?thesis
  proof (cases "s = shelf_type it")
    case True
    with Some p assms show ?thesis
      by (simp add: process_item_def Let_def shaped_modify valid_map_drop)
  next
    case False
    with Some p s assms show ?thesis
      by (simp add: process_item_def Let_def shaped_map_of shaped_update valid_map_drop)
  qed
qed


lemma process_items_filter:
  assumes "\<forall>i\<in>set its. \<not> Q (google_books_id i)"
  shows "filter (\<lambda>b. Q (book_id b)) (shelf_books (snd (process_items now its m lib)) k)
           = filter (\<lambda>b. Q (book_id b)) (shelf_books lib k)"
  using assms
proof (induction its arbitrary: m lib)
  case Nil
  then show ?case by simp
next
  case (Cons it its)
  obtain e m' lib' where step: "process_item now it m lib = (e, m', lib')"
    by (cases "process_item now it m lib") auto
  from Cons.prems have nq: "\<not> Q (google_books_id it)" by simp
  have keep: "filter (\<lambda>b. Q (book_id b)) (shelf_books lib' k) = filter (\<lambda>b. Q (book_id b)) (shelf_books lib k)"
    using nq step by (rule process_item_filter [where Q = Q])
  show ?case
  proof (cases e)
    case None
    with step Cons keep show ?thesis by simp
  next
    case (Some err)
    with step keep show ?thesis by simp
  qed
qed

text \<open>
  Claim C3. Whatever the snapshot and whether or not the merge runs to its end: on every
  shelf, the local books whose id no item of the snapshot carries are after the merge
  the same books, unchanged and in the same order; so each of them, with or without a
  \<^verbatim>\<open>db_id\<close>, is still on its shelf.
\<close>

theorem merge_keeps_unmatched:
  "filter (\<lambda>b. book_id b \<notin> google_books_id ` set its) (shelf_books (snd (merge_remote now its lib)) k)
     = filter (\<lambda>b. book_id b \<notin> google_books_id ` set its) (shelf_books lib k)
   \<and> (\<forall>b. b \<in> set (shelf_books lib k) \<and> book_id b \<notin> google_books_id ` set its
          \<longrightarrow> b \<in> set (shelf_books (snd (merge_remote now its lib)) k))"
proof -
  let ?Q = "\<lambda>i. i \<notin> google_books_id ` set its"
  have eq: "filter (\<lambda>b. ?Q (book_id b)) (shelf_books (snd (merge_remote now its lib)) k)
     = filter (\<lambda>b. ?Q (book_id b)) (shelf_books lib k)"
  proof (cases "build_map lib shelf_names Map.empty")
    case (Inl e)
    then show ?thesis by (simp add: merge_remote_def)
  next
    case (Inr m)
    have "\<forall>i\<in>set its. \<not> ?Q (google_books_id i)" by simp
    then have "filter (\<lambda>b. ?Q (book_id b)) (shelf_books (snd (process_items now its m lib)) k)
           = filter (\<lambda>b. ?Q (book_id b)) (shelf_books lib k)"
      by (rule process_items_filter [where Q = ?Q])
    with Inr show ?thesis by (simp add: merge_remote_def)
  qed
  have "b \<in> set (shelf_books (snd (merge_remote now its lib)) k)"
    if "b \<in> set (shelf_books lib k)" "book_id b \<notin> google_books_id ` set its" for b
  proof -
    from that have "b \<in> set (filter (\<lambda>b. ?Q (book_id b)) (shelf_books lib k))" by simp
    then have "b \<in> set (filter (\<lambda>b. ?Q (book_id b)) (shelf_books (snd (merge_remote now its lib)) k))"
      by (simp only: eq)
    then show ?thesis by simp
  qed
  with eq show ?thesis by blast
qed

theorem merge_keeps_unmatched_witness:
  "sample_book ''b1'' (Some 3) (Some 40)
     \<in> set (shelf_books
              (snd (merge_remote ''2024-02-02'' [sample_item 7 ''b2'' ''want'']
                      [(''current'', [sample_book ''b1'' (Some 3) (Some 40)]), (''want'', []),
                       (''finished'', [])]))
              ''current'')"
proof -
  let ?lib = "[(''current'', [sample_book ''b1'' (Some 3) (Some 40)]), (''want'', []), (''finished'', [])]"
  have "sample_book ''b1'' (Some 3) (Some 40) \<in> set (shelf_books ?lib ''current'')
        \<and> book_id (sample_book ''b1'' (Some 3) (Some 40))
            \<notin> google_books_id ` set [sample_item 7 ''b2'' ''want'']"
    by (simp add: shelf_books_def sample_book_def sample_item_def)
  with merge_keeps_unmatched [of "[sample_item 7 ''b2'' ''want'']" "''2024-02-02''" ?lib "''current''"]
  show ?thesis by blast
qed

subsection \<open>The index of the local books\<close>

lemma index_shelf_apply:
  "index_shelf s bs m x =
     (if x \<in> ids_of bs then Some (last (filter (\<lambda>b. book_id b = x) bs), s) else m x)"
proof (induction bs arbitrary: m rule: rev_induct)
  case Nil
  then show ?case by (simp add: index_shelf_def ids_of_def)
next
  case (snoc b bs)
  have "index_shelf s (bs @ [b]) m = (index_shelf s bs m)(book_id b \<mapsto> (b, s))"
    by (simp add: index_shelf_def)
  with snoc show ?case by (auto simp: ids_of_def)
qed

lemma build_map_total:
  "\<forall>k\<in>set ks. map_of lib k \<noteq> None \<Longrightarrow> \<exists>m'. build_map lib ks m = Inr m'"
  by (induction ks arbitrary: m) auto

lemma build_map_absent:
  "build_map lib ks m = Inr m' \<Longrightarrow> \<forall>k\<in>set ks. x \<notin> ids_of (shelf_books lib k) \<Longrightarrow> m' x = m x"
proof (induction ks arbitrary: m)
  case Nil
  then show ?case by simp
next
  case (Cons k ks)
  from Cons.prems(1) obtain bs where bs: "map_of lib k = Some bs"
    and rest: "build_map lib ks (index_shelf k bs m) = Inr m'"
    by (auto split: option.splits)
  from bs have "shelf_books lib k = bs" by (simp add: shelf_books_def)
  with Cons.prems(2) have "x \<notin> ids_of bs" by auto
  with Cons.IH [OF rest] Cons.prems(2) show ?case by (simp add: index_shelf_apply)
qed

lemma build_map_valid:
  "build_map lib ks m = Inr m' \<Longrightarrow> m' x = Some (b, s) \<Longrightarrow>
   m x = Some (b, s) \<or> (s \<in> set ks \<and> x \<in> ids_of (shelf_books lib s)
      \<and> b = last (filter (\<lambda>b. book_id b = x) (shelf_books lib s)))"
proof (induction ks arbitrary: m)
  case Nil
  then show ?case by simp
next
  case (Cons k ks)
  from Cons.prems(1) obtain bs where bs: "map_of lib k = Some bs"
    and rest: "build_map lib ks (index_shelf k bs m) = Inr m'"
    by (auto split: option.splits)
  from bs have sb: "shelf_books lib k = bs" by (simp add: shelf_books_def)
  from Cons.IH [OF rest Cons.prems(2)] show ?case
    using sb by (auto simp: index_shelf_apply split: if_splits)
qed

lemma build_map_only:
  assumes "build_map lib ks m = Inr m'" and "s \<in> set ks" and "x \<in> ids_of (shelf_books lib s)"
    and "\<forall>k\<in>set ks. k \<noteq> s \<longrightarrow> x \<notin> ids_of (shelf_books lib k)"
  shows "m' x = Some (last (filter (\<lambda>b. book_id b = x) (shelf_books lib s)), s)"
  using assms
proof (induction ks arbitrary: m)
  case Nil
  then show ?case by simp
next
  case (Cons k ks)
  from Cons.prems(1) obtain bs where bs: "map_of lib k = Some bs"
    and rest: "build_map lib ks (index_shelf k bs m) = Inr m'"
    by (auto split: option.splits)
  from bs have sb: "shelf_books lib k = bs" by (simp add: shelf_books_def)
  show ?case
  proof (cases "s \<in> set ks")
    case True
    from Cons.IH [OF rest True Cons.prems(3)] Cons.prems(4) show ?thesis by simp
  next
    case False
    with Cons.prems(2) have ks: "k = s" by simp
    from False Cons.prems(4) have "\<forall>k\<in>set ks. x \<notin> ids_of (shelf_books lib k)" by auto
    from build_map_absent [OF rest this] Cons.prems(3) sb ks show ?thesis
      by (simp add: index_shelf_apply)
  qed
qed

lemma process_items_ok:
  assumes "shaped lib" and "valid_map m" and "\<forall>i\<in>set its. shelf_type i \<in> set shelf_names"
  shows "fst (process_items now its m lib) = None \<and> shaped (snd (process_items now its m lib))"
  using assms
proof (induction its arbitrary: m lib)
  case Nil
  then show ?case by simp
next
  case (Cons it its)
  from Cons.prems have "shelf_type it \<in> set shelf_names" by simp
  from process_item_ok [OF Cons.prems(1,2) this, of now] obtain m' lib' where
    step: "process_item now it m lib = (None, m', lib')" and ok: "shaped lib'" "valid_map m'"
    by blast
  from Cons.prems(3) have "\<forall>i\<in>set its. shelf_type i \<in> set shelf_names" by simp
  from Cons.IH [where m = m' and lib = lib', OF ok this] step show ?case by simp
qed

lemma build_map_valid_map:
  assumes "build_map lib shelf_names Map.empty = Inr m"
  shows "valid_map m"
  unfolding valid_map_def
proof (intro allI impI)
  fix x b s
  assume "m x = Some (b, s)"
  from build_map_valid [OF assms this] show "s \<in> set shelf_names" by simp
qed

lemma shaped_build_map:
  assumes "shaped lib"
  shows "\<exists>m. build_map lib shelf_names Map.empty = Inr m \<and> valid_map m"
proof -
  have "\<forall>k\<in>set shelf_names. map_of lib k \<noteq> None"
    using shaped_map_of [OF assms] by auto
  from build_map_total [OF this] obtain m where "build_map lib shelf_names Map.empty = Inr m"
    by blast
  with build_map_valid_map show ?thesis by blast
qed

subsection \<open>Items without a local book\<close>

lemma process_item_keeps:
  assumes "m x = None" and "process_item now it m lib = (e, m', lib')"
    and "b \<in> set (shelf_books lib k)" and "book_id b = x"
  shows "b \<in> set (shelf_books lib' k) \<and> m' x = None"
proof -
  have m': "m' x = None" using process_item_map [OF assms(2)] assms(1) by auto
  have "b \<in> set (shelf_books lib' k)"
  proof (cases "google_books_id it = x")
    case True
    with assms(1) have none: "m (google_books_id it) = None" by simp
    show ?thesis
    proof (cases "map_of lib (shelf_type it)")
      case None
      with none assms(2,3) show ?thesis by (simp add: process_item_def)
    next
      case (Some ts)
      with none assms(2) have "lib' = AList.update (shelf_type it) (ts @ [remoteBook now it None]) lib"
        by (simp add: process_item_def)
      moreover from Some have "shelf_books lib (shelf_type it) = ts" by (simp add: shelf_books_def)
      ultimately show ?thesis using assms(3) by (cases "k = shelf_type it") (simp_all add: shelf_books_update)
    qed
  next
    case False
    then have "\<not> (\<lambda>i. i = x) (google_books_id it)" by simp
    then have "filter (\<lambda>b. book_id b = x) (shelf_books lib' k) = filter (\<lambda>b. book_id b = x) (shelf_books lib k)"
      using assms(2) by (rule process_item_filter [where Q = "\<lambda>i. i = x"])
    moreover from assms(3,4) have "b \<in> set (filter (\<lambda>b. book_id b = x) (shelf_books lib k))" by simp
    ultimately have "b \<in> set (filter (\<lambda>b. book_id b = x) (shelf_books lib' k))" by simp
    then show ?thesis by simp
  qed
  with m' show ?thesis by simp
qed

lemma process_items_keeps:
  assumes "m x = None" and "b \<in> set (shelf_books lib k)" and "book_id b = x"
  shows "b \<in> set (shelf_books (snd (process_items now its m lib)) k)"
  using assms
proof (induction its arbitrary: m lib)
  case Nil
  then show ?case by simp
next
  case (Cons it its)
  obtain e m' lib' where step: "process_item now it m lib = (e, m', lib')"
    by (cases "process_item now it m lib") auto
  from process_item_keeps [OF Cons.prems(1) step Cons.prems(2,3)]
  have k: "b \<in> set (shelf_books lib' k)" "m' x = None" by simp_all
  show ?case
  proof (cases e)
    case None
    with step Cons.IH [where m = m' and lib = lib', OF k(2) k(1) Cons.prems(3)] show ?thesis by simp
  next
    case (Some err)
    with step k show ?thesis by simp
  qed
qed

lemma process_item_insert:
  assumes "m (google_books_id r) = None" and "map_of lib (shelf_type r) = Some ts"
  shows "process_item now r m lib
           = (None, m, AList.update (shelf_type r) (ts @ [remoteBook now r None]) lib)"
  using assms by (simp add: process_item_def)

lemma process_items_inserts:
  assumes "shaped lib" and "valid_map m" and "\<forall>i\<in>set its. shelf_type i \<in> set shelf_names"
    and "r \<in> set its" and "m (google_books_id r) = None"
  shows "remoteBook now r None \<in> set (shelf_books (snd (process_items now its m lib)) (shelf_type r))"
  using assms
proof (induction its arbitrary: m lib)
  case Nil
  then show ?case by simp
next
  case (Cons it its)
  from Cons.prems have ty: "shelf_type it \<in> set shelf_names" by simp
  from process_item_ok [OF Cons.prems(1,2) ty, of now] obtain m' lib' where
    step: "process_item now it m lib = (None, m', lib')" and ok: "shaped lib'" "valid_map m'"
    by blast
  have m': "m' (google_books_id r) = None"
    using process_item_map [OF step] Cons.prems(5) by auto
  show ?case
  proof (cases "it = r")
    case True
    from shaped_map_of [OF Cons.prems(1) ty] True
    have "map_of lib (shelf_type r) = Some (shelf_books lib (shelf_type r))" by simp
    from process_item_insert [where m = m and lib = lib, OF Cons.prems(5) this, of now] step True
    have "lib' = AList.update (shelf_type r)
                   (shelf_books lib (shelf_type r) @ [remoteBook now r None]) lib" by simp
    then have "remoteBook now r None \<in> set (shelf_books lib' (shelf_type r))"
      by (simp add: shelf_books_update)
    moreover have "book_id (remoteBook now r None) = google_books_id r" by simp
    ultimately have "remoteBook now r None \<in> set (shelf_books (snd (process_items now its m' lib')) (shelf_type r))"
      using m' by (intro process_items_keeps [where x = "google_books_id r"])
    with step show ?thesis by simp
  next
    case False
    with Cons.prems(4) have "r \<in> set its" by simp
    from Cons.prems(3) have "\<forall>i\<in>set its. shelf_type i \<in> set shelf_names" by simp
    from Cons.IH [where m = m' and lib = lib', OF ok this \<open>r \<in> set its\<close> m'] step
    show ?thesis by simp
  qed
qed

text \<open>
  Claim C4. In a collection of the three shelves, with a snapshot whose items all name
  one of the three shelves: for every item \<open>r\<close> of the snapshot whose id is on no
  local shelf, the merge runs without exception and the shelf that \<open>r\<close> names then
  holds the record built from \<open>r\<close>, with the id of \<open>r\<close> and with
  \<^verbatim>\<open>db_id\<close> the backend's id of \<open>r\<close>. In particular, a snapshot of one item
  with shelf \<^verbatim>\<open>want\<close> merged into the empty default collection gives that one
  record under \<^verbatim>\<open>want\<close> and nothing on the two other shelves.
\<close>

theorem merge_inserts_remote_only:
  assumes "shaped lib" and "\<forall>i\<in>set its. shelf_type i \<in> set shelf_names" and "r \<in> set its"
    and "\<forall>k\<in>set shelf_names. google_books_id r \<notin> ids_of (shelf_books lib k)"
  shows "fst (merge_remote now its lib) = None
       \<and> remoteBook now r None \<in> set (shelf_books (snd (merge_remote now its lib)) (shelf_type r))
       \<and> book_id (remoteBook now r None) = google_books_id r
       \<and> db_id (remoteBook now r None) = Some (item_id r)
       \<and> (shelf_type r = ''want'' \<longrightarrow>
            merge_remote now [r] default_library
              = (None, [(''current'', []), (''want'', [remoteBook now r None]), (''finished'', [])]))"
proof -
  from shaped_build_map [OF assms(1)] obtain m where
    m: "build_map lib shelf_names Map.empty = Inr m" and v: "valid_map m" by blast
  from build_map_absent [OF m assms(4)] have none: "m (google_books_id r) = None" by simp
  have mr: "merge_remote now its lib = process_items now its m lib"
    using m by (simp add: merge_remote_def)
  have 1: "fst (merge_remote now its lib) = None"
    using process_items_ok [OF assms(1) v assms(2)] mr by simp
  have 2: "remoteBook now r None \<in> set (shelf_books (snd (merge_remote now its lib)) (shelf_type r))"
    using process_items_inserts [OF assms(1) v assms(2,3) none] mr by simp
  have 3: "merge_remote now [r] default_library
              = (None, [(''current'', []), (''want'', [remoteBook now r None]), (''finished'', [])])"
    if "shelf_type r = ''want''"
    using that
    by (simp add: merge_remote_def default_library_def shelf_names_def index_shelf_def process_item_def)
  from 1 2 3 show ?thesis by simp
qed

theorem merge_inserts_remote_only_witness:
  "merge_remote ''2024-02-02'' [sample_item 7 ''b1'' ''want''] default_library
     = (None, [(''current'', []),
               (''want'', [remoteBook ''2024-02-02'' (sample_item 7 ''b1'' ''want'') None]),
               (''finished'', [])])
   \<and> db_id (remoteBook ''2024-02-02'' (sample_item 7 ''b1'' ''want'') None) = Some 7"
proof -
  let ?r = "sample_item 7 ''b1'' ''want''"
  have h1: "shaped default_library" by (simp add: shaped_def default_library_def shelf_names_def)
  have h2: "\<forall>i\<in>set [?r]. shelf_type i \<in> set shelf_names"
    by (simp add: sample_item_def shelf_names_def)
  have h3: "?r \<in> set [?r]" by simp
  have h4: "\<forall>k\<in>set shelf_names. google_books_id ?r \<notin> ids_of (shelf_books default_library k)"
    by (simp add: shelf_names_def default_library_def shelf_books_def ids_of_def)
  have h5: "shelf_type ?r = ''want'' \<and> item_id ?r = 7" by (simp add: sample_item_def)
  from merge_inserts_remote_only [OF h1 h2 h3 h4, of "''2024-02-02''"] h5
  show ?thesis by simp
qed


subsection \<open>Items with a local book on another shelf\<close>

lemma process_items_untouched:
  assumes "shaped lib" and "valid_map m" and "\<forall>i\<in>set its. shelf_type i \<in> set shelf_names"
    and "\<forall>i\<in>set its. google_books_id i \<noteq> x"
  shows "fst (process_items now its m lib) = None
       \<and> filter (\<lambda>b. book_id b = x) (shelf_books (snd (process_items now its m lib)) k)
           = filter (\<lambda>b. book_id b = x) (shelf_books lib k)"
proof -
  from assms(4) have "\<forall>i\<in>set its. \<not> (\<lambda>i. i = x) (google_books_id i)" by simp
  then have "filter (\<lambda>b. book_id b = x) (shelf_books (snd (process_items now its m lib)) k)
           = filter (\<lambda>b. book_id b = x) (shelf_books lib k)"
    by (rule process_items_filter [where Q = "\<lambda>i. i = x"])
  with process_items_ok [OF assms(1-3)] show ?thesis by simp
qed

lemma process_item_conflict:
  assumes "m (google_books_id r) = Some (b0, s)" and "shelf_type r \<noteq> s"
    and "map_of lib s = Some bs" and "map_of lib (shelf_type r) = Some ts"
  shows "process_item now r m lib
           = (None, m(google_books_id r := None),
              AList.update (shelf_type r) (ts @ [remoteBook now r (Some (b0, s))])
                (AList.update s (filter (\<lambda>b. book_id b \<noteq> google_books_id r) bs) lib))"
  using assms by (simp add: process_item_def Let_def map_of_update_if)

lemma filter_id_empty: "filter (\<lambda>b. book_id b = x) bs = [] \<longleftrightarrow> x \<notin> ids_of bs"
  by (auto simp: filter_empty_conv ids_of_def)

lemma process_items_routes:
  assumes "shaped lib" and "valid_map m" and "\<forall>i\<in>set its. shelf_type i \<in> set shelf_names"
    and "m x = Some (b0, s)" and "filter (\<lambda>i. google_books_id i = x) its = [r]"
    and "shelf_type r \<noteq> s" and "\<forall>k. k \<noteq> s \<longrightarrow> x \<notin> ids_of (shelf_books lib k)"
  shows "fst (process_items now its m lib) = None
       \<and> filter (\<lambda>b. book_id b = x) (shelf_books (snd (process_items now its m lib)) (shelf_type r))
           = [remoteBook now r (Some (b0, s))]
       \<and> (\<forall>k. k \<noteq> shelf_type r \<longrightarrow> x \<notin> ids_of (shelf_books (snd (process_items now its m lib)) k))"
  using assms
proof (induction its arbitrary: m lib)
  case Nil
  then show ?case by simp
next
  case (Cons it its)
  from Cons.prems(3) have ty: "shelf_type it \<in> set shelf_names"
    and tys: "\<forall>i\<in>set its. shelf_type i \<in> set shelf_names" by simp_all
  from Cons.prems(2,4) have s: "s \<in> set shelf_names" by (auto simp: valid_map_def)
  show ?case
  proof (cases "google_books_id it = x")
    case True
    with Cons.prems(5) have it: "it = r" and rest: "filter (\<lambda>i. google_books_id i = x) its = []"
      by simp_all
    from rest have others: "\<forall>i\<in>set its. google_books_id i \<noteq> x"
      by (simp add: filter_empty_conv)
    let ?t = "shelf_type r"
    let ?rb = "remoteBook now r (Some (b0, s))"
    let ?l1 = "AList.update s (filter (\<lambda>b. book_id b \<noteq> x) (shelf_books lib s)) lib"
    let ?l2 = "AList.update ?t (shelf_books lib ?t @ [?rb]) ?l1"
    have gr: "google_books_id r = x" using True it by simp
    have step: "process_item now r m lib = (None, m(x := None), ?l2)"
      using process_item_conflict [where m = m and lib = lib and r = r and now = now,
          OF _ Cons.prems(6) shaped_map_of [OF Cons.prems(1) s]
             shaped_map_of [OF Cons.prems(1)]]
        Cons.prems(4) ty it gr by simp
    have sh2: "shaped ?l2"
      using Cons.prems(1) s ty it by (simp add: shaped_update)
    have v2: "valid_map (m(x := None))" using Cons.prems(2) by (rule valid_map_drop)
    note rest_ok = process_items_untouched [OF sh2 v2 tys others, of now]
    have on_t: "filter (\<lambda>b. book_id b = x) (shelf_books ?l2 ?t) = [?rb]"
      using Cons.prems(6,7) gr by (simp add: shelf_books_update filter_id_empty)
    have off_t: "filter (\<lambda>b. book_id b = x) (shelf_books ?l2 k) = []" if "k \<noteq> ?t" for k
      using that Cons.prems(7) by (cases "k = s") (simp_all add: shelf_books_update filter_id_empty)
    have "fst (process_items now (it # its) m lib) = None"
      using step it rest_ok by simp
    moreover have "filter (\<lambda>b. book_id b = x) (shelf_books (snd (process_items now (it # its) m lib)) ?t) = [?rb]"
      using step it rest_ok [of ?t] on_t by simp
    moreover have "x \<notin> ids_of (shelf_books (snd (process_items now (it # its) m lib)) k)"
      if "k \<noteq> ?t" for k
      using step it rest_ok [of k] off_t [OF that] by (simp add: filter_id_empty)
    ultimately show ?thesis by blast
  next
    case False
    with Cons.prems(5) have rest: "filter (\<lambda>i. google_books_id i = x) its = [r]" by simp
    from process_item_ok [OF Cons.prems(1,2) ty, of now] obtain m' lib' where
      step: "process_item now it m lib = (None, m', lib')" and ok: "shaped lib'" "valid_map m'"
      by blast
    have m': "m' x = Some (b0, s)"
      using process_item_map_other [OF step False] Cons.prems(4) by simp
    have same: "filter (\<lambda>b. book_id b = x) (shelf_books lib' k) = filter (\<lambda>b. book_id b = x) (shelf_books lib k)"
      for k
    proof -
      from False have "\<not> (\<lambda>i. i = x) (google_books_id it)" by simp
      then show ?thesis using step by (rule process_item_filter [where Q = "\<lambda>i. i = x"])
    qed
    have only: "\<forall>k. k \<noteq> s \<longrightarrow> x \<notin> ids_of (shelf_books lib' k)"
      using Cons.prems(7) same by (simp add: filter_id_empty [symmetric])
    from Cons.IH [where m = m' and lib = lib', OF ok tys m' rest Cons.prems(6) only] step
    show ?thesis by simp
  qed
qed

text \<open>
  Claim C1, as the code has it. In a collection of the three shelves, with a snapshot
  whose items all name one of the three shelves: when the id \<open>x\<close> is locally on
  shelf \<open>s\<close> and on no other, and \<open>r\<close> is the only item of the snapshot with id
  \<open>x\<close> and names another shelf, then after the merge the shelf of \<open>r\<close> holds
  exactly one record with id \<open>x\<close>, carrying the backend's id of \<open>r\<close>, and no
  other shelf holds a record with id \<open>x\<close>. The items are handled one by one against
  the index of the local books, so each further item with the same id adds a further
  record.
\<close>

theorem merge_routes_to_remote_shelf:
  assumes "shaped lib" and "\<forall>i\<in>set its. shelf_type i \<in> set shelf_names"
    and "x \<in> ids_of (shelf_books lib s)" and "\<forall>k. k \<noteq> s \<longrightarrow> x \<notin> ids_of (shelf_books lib k)"
    and "filter (\<lambda>i. google_books_id i = x) its = [r]" and "shelf_type r \<noteq> s"
  shows "fst (merge_remote now its lib) = None
       \<and> (\<exists>b. filter (\<lambda>b. book_id b = x) (shelf_books (snd (merge_remote now its lib)) (shelf_type r)) = [b]
              \<and> db_id b = Some (item_id r))
       \<and> (\<forall>k. k \<noteq> shelf_type r \<longrightarrow> x \<notin> ids_of (shelf_books (snd (merge_remote now its lib)) k))"
proof -
  from shaped_build_map [OF assms(1)] obtain m where
    m: "build_map lib shelf_names Map.empty = Inr m" and v: "valid_map m" by blast
  from assms(3) have "shelf_books lib s \<noteq> []" by (auto simp: ids_of_def)
  then have "s \<in> set (map fst lib)" by (rule shelf_books_nonempty_key)
  with assms(1) have s: "s \<in> set shelf_names" by (simp add: shaped_def)
  from assms(4) have "\<forall>k\<in>set shelf_names. k \<noteq> s \<longrightarrow> x \<notin> ids_of (shelf_books lib k)" by simp
  from build_map_only [OF m s assms(3) this]
  have mx: "m x = Some (last (filter (\<lambda>b. book_id b = x) (shelf_books lib s)), s)" .
  have mr: "merge_remote now its lib = process_items now its m lib"
    using m by (simp add: merge_remote_def)
  from process_items_routes [OF assms(1) v assms(2) mx assms(5,6,4), of now] mr
  show ?thesis by simp
qed


theorem merge_routes_to_remote_shelf_witness:
  "\<exists>b. filter (\<lambda>b. book_id b = ''b1'')
          (shelf_books
             (snd (merge_remote ''2024-02-02'' [sample_item 7 ''b1'' ''finished'']
                     [(''current'', []), (''want'', [sample_book ''b1'' None None]), (''finished'', [])]))
             ''finished'') = [b]
      \<and> db_id b = Some 7"
proof -
  let ?lib = "[(''current'', []), (''want'', [sample_book ''b1'' None None]), (''finished'', [])]"
  let ?r = "sample_item 7 ''b1'' ''finished''"
  have h1: "shaped ?lib" by (simp add: shaped_def shelf_names_def)
  have h2: "\<forall>i\<in>set [?r]. shelf_type i \<in> set shelf_names"
    by (simp add: sample_item_def shelf_names_def)
  have h3: "''b1'' \<in> ids_of (shelf_books ?lib ''want'')"
    by (simp add: ids_of_def shelf_books_def sample_book_def)
  have h4: "\<forall>k. k \<noteq> ''want'' \<longrightarrow> ''b1'' \<notin> ids_of (shelf_books ?lib k)"
    by (simp add: ids_of_def shelf_books_def)
  have h5: "filter (\<lambda>i. google_books_id i = ''b1'') [?r] = [?r]" by (simp add: sample_item_def)
  have h6: "shelf_type ?r \<noteq> ''want''" by (simp add: sample_item_def)
  have h7: "shelf_type ?r = ''finished'' \<and> item_id ?r = 7" by (simp add: sample_item_def)
  from merge_routes_to_remote_shelf [OF h1 h2 h3 h4 h5 h6, of "''2024-02-02''"] h7
  show ?thesis by simp
qed

theorem merge_routes_to_remote_shelf_counterexample:
  "merge_remote ''2024-02-02'' [sample_item 7 ''b1'' ''finished'', sample_item 8 ''b1'' ''finished'']
     [(''current'', []), (''want'', [sample_book ''b1'' None None]), (''finished'', [])]
   = (None,
      [(''current'', []), (''want'', []),
       (''finished'',
          [remoteBook ''2024-02-02'' (sample_item 7 ''b1'' ''finished'')
             (Some (sample_book ''b1'' None None, ''want'')),
           remoteBook ''2024-02-02'' (sample_item 8 ''b1'' ''finished'') None])])
   \<and> db_id (remoteBook ''2024-02-02'' (sample_item 7 ''b1'' ''finished'')
             (Some (sample_book ''b1'' None None, ''want''))) = Some 7
   \<and> db_id (remoteBook ''2024-02-02'' (sample_item 8 ''b1'' ''finished'') None) = Some 8"
  by (simp add: merge_remote_def shelf_names_def index_shelf_def process_item_def Let_def
      sample_item_def sample_book_def)

subsection \<open>Items with a local book on the same shelf\<close>



lemma progress_remoteBook [simp]: "progress (remoteBook now it (Some (b0, s))) = progress b0"
  by (simp add: remoteBook_def)





subsection \<open>The books to upload\<close>

lemma falsy_id: "\<not> truthy_id d \<longleftrightarrow> d = None \<or> d = Some 0"
  by (cases d) (simp_all add: truthy_id_def)

lemma merge_empty: "snd (merge_remote now [] lib) = lib"
  by (cases "build_map lib shelf_names Map.empty") (simp_all add: merge_remote_def)

text \<open>What the list holds: the books of the three shelves with a falsy \<^verbatim>\<open>db_id\<close>.\<close>

lemma itemsToSync_set:
  "set (itemsToSync lib)
     = {(b, s). s \<in> set shelf_names \<and> b \<in> set (shelf_books lib s) \<and> (db_id b = None \<or> db_id b = Some 0)}"
  by (auto simp: itemsToSync_def shelf_books_def falsy_id split: option.splits)

text \<open>
  Where no book carries the identifier \<open>0\<close>, these are the books without
  \<^verbatim>\<open>db_id\<close>; and a book without \<^verbatim>\<open>db_id\<close> is in the list after the merge of an
  empty snapshot, which changes nothing.
\<close>

lemma itemsToSync_without_zero:
  assumes "\<forall>s\<in>set shelf_names. \<forall>b\<in>set (shelf_books lib s). db_id b \<noteq> Some 0"
  shows "set (itemsToSync lib)
           = {(b, s). s \<in> set shelf_names \<and> b \<in> set (shelf_books lib s) \<and> db_id b = None}"
  using assms unfolding itemsToSync_set by auto

lemma itemsToSync_after_empty_merge:
  assumes "s \<in> set shelf_names" and "b \<in> set (shelf_books lib s)" and "db_id b = None"
  shows "snd (merge_remote now [] lib) = lib
       \<and> (b, s) \<in> set (itemsToSync (snd (merge_remote now [] lib)))"
  using assms by (simp add: merge_empty itemsToSync_set)


subsection \<open>No id twice\<close>

lemma ids_of_simps [simp]:
  "ids_of [] = {}" "ids_of (b # bs) = insert (book_id b) (ids_of bs)"
  "ids_of (bs @ cs) = ids_of bs \<union> ids_of cs"
  by (auto simp: ids_of_def)

lemma ids_of_filter: "ids_of (filter P bs) \<subseteq> ids_of bs"
  by (auto simp: ids_of_def)

lemma ids_of_filter_out: "i \<notin> ids_of (filter (\<lambda>b. book_id b \<noteq> i) bs)"
  by (auto simp: ids_of_def)

lemma ids_of_map: "ids_of bs = set (map book_id bs)"
  by (simp add: ids_of_def)

lemma unique_ids_filter:
  assumes "unique_ids lib"
  shows "unique_ids (AList.update k (filter P (shelf_books lib k)) lib)"
proof -
  from assms have d: "\<And>k. distinct (map book_id (shelf_books lib k))"
    and o: "\<And>k k'. k \<noteq> k' \<Longrightarrow> ids_of (shelf_books lib k) \<inter> ids_of (shelf_books lib k') = {}"
    by (auto simp: unique_ids_def one_shelf_each_def)
  show ?thesis
    unfolding unique_ids_def one_shelf_each_def
  proof (intro conjI allI impI)
    fix k'
    show "distinct (map book_id (shelf_books (AList.update k (filter P (shelf_books lib k)) lib) k'))"
      using d by (simp add: shelf_books_update distinct_map_filter)
  next
    fix k1 k2 :: string
    assume ne: "k1 \<noteq> k2"
    from ne o [OF ne] ids_of_filter [of P "shelf_books lib k"]
    show "ids_of (shelf_books (AList.update k (filter P (shelf_books lib k)) lib) k1)
            \<inter> ids_of (shelf_books (AList.update k (filter P (shelf_books lib k)) lib) k2) = {}"
      by (auto simp: shelf_books_update)
  qed
qed

lemma unique_ids_push:
  assumes "unique_ids lib" and "\<forall>k'. book_id e \<notin> ids_of (shelf_books lib k')"
  shows "unique_ids (AList.update k (shelf_books lib k @ [e]) lib)"
proof -
  from assms have d: "\<And>k. distinct (map book_id (shelf_books lib k))"
    and o: "\<And>k k'. k \<noteq> k' \<Longrightarrow> ids_of (shelf_books lib k) \<inter> ids_of (shelf_books lib k') = {}"
    by (auto simp: unique_ids_def one_shelf_each_def)
  show ?thesis
    unfolding unique_ids_def one_shelf_each_def
  proof (intro conjI allI impI)
    fix k'
    show "distinct (map book_id (shelf_books (AList.update k (shelf_books lib k @ [e]) lib) k'))"
      using d assms(2) by (simp add: shelf_books_update ids_of_map)
  next
    fix k1 k2 :: string
    assume ne: "k1 \<noteq> k2"
    from ne o [OF ne] assms(2)
    show "ids_of (shelf_books (AList.update k (shelf_books lib k @ [e]) lib) k1)
            \<inter> ids_of (shelf_books (AList.update k (shelf_books lib k @ [e]) lib) k2) = {}"
      by (auto simp: shelf_books_update)
  qed
qed

lemma distinct_remove_nth:
  assumes "distinct (map g xs)" and "n < length xs"
  shows "distinct (map g (take n xs @ drop (Suc n) xs)) \<and> g (xs ! n) \<notin> g ` set (take n xs @ drop (Suc n) xs)"
proof -
  from assms(2) have "xs = take n xs @ xs ! n # drop (Suc n) xs" by (rule id_take_nth_drop)
  then have "map g xs = map g (take n xs) @ g (xs ! n) # map g (drop (Suc n) xs)"
    by (metis list.simps(9) map_append)
  with assms(1) have "distinct (map g (take n xs) @ g (xs ! n) # map g (drop (Suc n) xs))" by simp
  then show ?thesis by auto
qed

lemma ids_of_remove_nth: "ids_of (take n xs @ drop (Suc n) xs) \<subseteq> ids_of xs"
  by (auto simp: ids_of_def dest: in_set_takeD in_set_dropD)

lemma unique_ids_move:
  assumes "unique_ids lib" and "f \<noteq> t" and "n < length (shelf_books lib f)"
  shows "unique_ids
           (AList.update t (shelf_books lib t @ [shelf_books lib f ! n])
              (AList.update f (take n (shelf_books lib f) @ drop (Suc n) (shelf_books lib f)) lib))"
proof -
  let ?src = "shelf_books lib f"
  let ?rest = "take n ?src @ drop (Suc n) ?src"
  let ?e = "?src ! n"
  let ?l3 = "AList.update f ?rest lib"
  from assms(1) have d: "\<And>k. distinct (map book_id (shelf_books lib k))"
    and o: "\<And>k k'. k \<noteq> k' \<Longrightarrow> ids_of (shelf_books lib k) \<inter> ids_of (shelf_books lib k') = {}"
    by (auto simp: unique_ids_def one_shelf_each_def)
  from distinct_remove_nth [OF d [of f] assms(3)]
  have dr: "distinct (map book_id ?rest)" and nr: "book_id ?e \<notin> ids_of ?rest"
    by (simp_all add: ids_of_def)
  have sub: "ids_of ?rest \<subseteq> ids_of ?src" by (rule ids_of_remove_nth)
  have ein: "book_id ?e \<in> ids_of ?src" using assms(3) by (auto simp: ids_of_def)
  have d3: "distinct (map book_id (shelf_books ?l3 k))" for k
    using d dr by (simp add: shelf_books_update)
  have o3: "ids_of (shelf_books ?l3 k) \<inter> ids_of (shelf_books ?l3 k') = {}" if "k \<noteq> k'" for k k'
    using that o [OF that] sub by (auto simp: shelf_books_update)
  have u3: "unique_ids ?l3" using d3 o3 by (simp add: unique_ids_def one_shelf_each_def)
  have "book_id ?e \<notin> ids_of (shelf_books ?l3 k)" for k
  proof (cases "k = f")
    case True
    with nr show ?thesis by (simp add: shelf_books_update)
  next
    case False
    from o [OF this] ein False show ?thesis by (auto simp: shelf_books_update)
  qed
  then have "\<forall>k'. book_id ?e \<notin> ids_of (shelf_books ?l3 k')" by simp
  from unique_ids_push [OF u3 this, of t] assms(2) show ?thesis by (simp add: shelf_books_update)
qed

lemma unique_ids_cong: "(\<And>k. shelf_books l' k = shelf_books l k) \<Longrightarrow> unique_ids l' = unique_ids l"
  by (simp add: unique_ids_def one_shelf_each_def)

lemma distinct_keys_ensure: "distinct (map fst l) \<Longrightarrow> distinct (map fst (ensure_shelf k l))"
  by (simp add: ensure_shelf_def distinct_update)

lemma clean_stored_moveBook:
  assumes "distinct (map fst l)" and "unique_ids l"
  shows "case snd (moveBook i f t (Stored l)) of
           Stored l' \<Rightarrow> distinct (map fst l') \<and> unique_ids l' | _ \<Rightarrow> True"
proof (cases "f = t")
  case True
  with assms show ?thesis by (simp add: moveBook_def)
next
  case False
  let ?l2 = "ensure_shelf t (ensure_shelf f l)"
  have sb2: "shelf_books ?l2 k = shelf_books l k" for k by (simp add: shelf_books_ensure)
  have u2: "unique_ids ?l2" using assms(2) unique_ids_cong [of ?l2 l] sb2 by simp
  have d2: "distinct (map fst ?l2)" using assms(1) by (intro distinct_keys_ensure)
  show ?thesis
  proof (cases "findIndex (\<lambda>b. book_id b = i) (shelf_books ?l2 f)")
    case None
    with False assms show ?thesis by (simp add: moveBook_def parsed_or_empty_def)
  next
    case (Some n)
    from findIndex_Some [OF Some] have n: "n < length (shelf_books ?l2 f)" by simp
    let ?l3 = "AList.update f (take n (shelf_books ?l2 f) @ drop (Suc n) (shelf_books ?l2 f)) ?l2"
    let ?l4 = "AList.update t (shelf_books ?l3 t @ [shelf_books ?l2 f ! n]) ?l3"
    have r: "snd (moveBook i f t (Stored l)) = Stored ?l4"
      using False Some by (simp add: moveBook_def parsed_or_empty_def Let_def)
    have t3: "shelf_books ?l3 t = shelf_books ?l2 t" using False by (simp add: shelf_books_update)
    have "unique_ids ?l4" unfolding t3 using u2 False n by (rule unique_ids_move)
    moreover have "distinct (map fst ?l4)" using d2 by (intro distinct_update)
    ultimately show ?thesis using r by simp
  qed
qed

lemma clean_step_move:
  assumes "clean m"
  shows "clean (step (Move i f t) m)"
proof (cases "storage m")
  case No_item
  have sb: "shelf_books (ensure_shelf t (ensure_shelf f [])) f = []"
    by (simp only: shelf_books_ensure) (simp add: shelf_books_def)
  from No_item assms show ?thesis by (simp add: clean_def moveBook_def parsed_or_empty_def sb)
next
  case Invalid_text
  with assms show ?thesis by (simp add: clean_def moveBook_def)
next
  case (Stored l)
  with assms have "distinct (map fst l)" "unique_ids l" by (simp_all add: clean_def)
  from clean_stored_moveBook [OF this, of i f t] assms Stored show ?thesis
    by (simp add: clean_def)
qed

lemma book_id_stamp [simp]: "book_id (stamp post e) = book_id e"
  by (cases post) (simp_all add: stamp_def)

lemma book_id_enrich [simp]: "book_id (enrich b shelf now) = book_id b"
  by (simp add: enrich_def)

lemma clean_push_book:
  assumes "shaped (library m)" and "unique_ids (library m)"
    and "\<forall>k. book_id e \<notin> ids_of (shelf_books (library m) k)" and "clean m"
  shows "clean (snd (push_book e shelf post m))"
proof (cases "map_of (library m) shelf")
  case None
  with assms(4) show ?thesis by (simp add: push_book_def)
next
  case (Some bs)
  then have bs: "shelf_books (library m) shelf = bs" by (simp add: shelf_books_def)
  from Some have key: "shelf \<in> set (map fst (library m))" by (force dest!: map_of_SomeD)
  let ?l = "AList.update shelf (shelf_books (library m) shelf @ [stamp post e]) (library m)"
  have "\<forall>k. book_id (stamp post e) \<notin> ids_of (shelf_books (library m) k)" using assms(3) by simp
  from unique_ids_push [OF assms(2) this] have u: "unique_ids ?l" .
  have sh: "shaped ?l" using assms(1) key by (simp add: shaped_def keys_update)
  then have d: "distinct (map fst ?l)" using shaped_keys by blast
  have "snd (push_book e shelf post m) = \<lparr>library = ?l, storage = Stored ?l\<rparr>"
    using Some bs by (simp add: push_book_def saveLocally_def)
  with u sh d show ?thesis by (simp add: clean_def)
qed

lemma clean_addBook:
  assumes "clean m"
  shows "clean (snd (addBook b shelf now post m))"
proof -
  let ?lib = "library m"
  let ?i = "book_id b"
  let ?e = "enrich b shelf now"
  from assms have sh: "shaped ?lib" and u: "unique_ids ?lib" by (simp_all add: clean_def)
  from shaped_keys [OF sh] have keys: "set (map fst ?lib) = set shelf_names"
    and d: "distinct (map fst ?lib)" by simp_all
  show ?thesis
  proof (cases "findBook ?i ?lib")
    case False
    with d have "\<forall>k. ?i \<notin> ids_of (shelf_books ?lib k)" by (simp add: findBook_present)
    then have "\<forall>k. book_id ?e \<notin> ids_of (shelf_books ?lib k)" by simp
    from clean_push_book [OF sh u this assms] False show ?thesis by (simp add: addBook_def)
  next
    case True
    with d obtain k where "?i \<in> ids_of (shelf_books ?lib k)" by (auto simp: findBook_present)
    from removeBook_present [OF d this] obtain s where
      s: "findBookShelf ?i ?lib = Some s" "?i \<in> ids_of (shelf_books ?lib s)" "s \<in> set (map fst ?lib)"
      and r: "removeBook ?i m =
             (True, \<lparr>library = AList.update s (filter (\<lambda>x. book_id x \<noteq> ?i) (shelf_books ?lib s)) ?lib,
                     storage = Stored (AList.update s (filter (\<lambda>x. book_id x \<noteq> ?i) (shelf_books ?lib s)) ?lib)\<rparr>)"
      by blast
    from s(3) keys have "s \<in> set shelf_names" by simp
    then have nonempty: "s \<noteq> []" by (auto simp: shelf_names_def)
    show ?thesis
    proof (cases "s = shelf")
      case same: True
      with True s(1) assms show ?thesis by (simp add: addBook_def)
    next
      case ne: False
      let ?l1 = "AList.update s (filter (\<lambda>x. book_id x \<noteq> ?i) (shelf_books ?lib s)) ?lib"
      let ?m1 = "\<lparr>library = ?l1, storage = Stored ?l1\<rparr>"
      have u1: "unique_ids ?l1" using u by (rule unique_ids_filter)
      have sh1: "shaped ?l1" using sh s(3) by (simp add: shaped_def keys_update)
      then have d1: "distinct (map fst ?l1)" using shaped_keys by blast
      have c1: "clean ?m1" using u1 sh1 d1 by (simp add: clean_def)
      have "?i \<notin> ids_of (shelf_books ?l1 k)" for k
      proof (cases "k = s")
        case True
        then show ?thesis by (simp add: shelf_books_update ids_of_filter_out)
      next
        case False
        with u s(2) have "?i \<notin> ids_of (shelf_books ?lib k)"
          by (auto simp: unique_ids_def one_shelf_each_def)
        with False show ?thesis by (simp add: shelf_books_update)
      qed
      then have "\<forall>k. book_id ?e \<notin> ids_of (shelf_books (library ?m1) k)" by simp
      from clean_push_book [of ?m1 ?e shelf post, OF _ _ this c1] sh1 u1
      have "clean (snd (push_book ?e shelf post ?m1))" by simp
      moreover have "addBook b shelf now post m = push_book ?e shelf post ?m1"
        using True s(1) ne nonempty r by (simp add: addBook_def)
      ultimately show ?thesis by simp
    qed
  qed
qed

lemma clean_step:
  assumes "clean m"
  shows "clean (step op m)"
proof (cases op)
  case (Add b shelf now post)
  from clean_addBook [OF assms, of b shelf now post] Add show ?thesis by simp
next
  case (Move i f t)
  from clean_step_move [OF assms, of i f t] Move show ?thesis by (simp only:)
qed

lemma clean_run: "clean m \<Longrightarrow> clean (run ops m)"
  by (induction ops arbitrary: m) (simp_all add: clean_step)

text \<open>
  Claim C6, as the code has it. Start where the library of the manager is a collection
  of the three shelves in which no id occurs twice, neither on one shelf nor on two,
  and where the stored item, if it is an object, has no id twice either. Then after any
  number of steps of any sequence of \<^verbatim>\<open>addBook\<close> and \<^verbatim>\<open>moveBook\<close> operations the
  same holds; in particular every id is on at most one shelf, in the library and in the
  stored item. A start with an id twice on one shelf is not enough:
  \<^verbatim>\<open>moveBook\<close> moves the first such record and leaves the second.
\<close>

theorem add_move_keep_ids_unique:
  assumes "clean m"
  shows "clean (run (take n ops) m)
       \<and> one_shelf_each (library (run (take n ops) m))
       \<and> (case storage (run (take n ops) m) of Stored l \<Rightarrow> one_shelf_each l | _ \<Rightarrow> True)"
proof -
  from assms have c: "clean (run (take n ops) m)" by (rule clean_run)
  then show ?thesis by (auto simp: clean_def unique_ids_def split: storage.splits)
qed

theorem add_move_keep_ids_unique_witness:
  "one_shelf_each
     (library (run [Add (sample_book ''b1'' None None) ''want'' ''2024-02-02'' No_post,
                    Move ''b1'' ''want'' ''finished'',
                    Add (sample_book ''b1'' None None) ''current'' ''2024-02-03'' (Post_ok 7)]
                 \<lparr>library = default_library, storage = Stored default_library\<rparr>))"
proof -
  let ?ops = "[Add (sample_book ''b1'' None None) ''want'' ''2024-02-02'' No_post,
               Move ''b1'' ''want'' ''finished'',
               Add (sample_book ''b1'' None None) ''current'' ''2024-02-03'' (Post_ok 7)]"
  have e: "shelf_books default_library k = []" for k
    by (simp add: shelf_books_def default_library_def)
  have "clean \<lparr>library = default_library, storage = Stored default_library\<rparr>"
    by (simp add: clean_def unique_ids_def one_shelf_each_def e)
      (simp add: shaped_def default_library_def shelf_names_def)
  from add_move_keep_ids_unique [OF this, of "length ?ops" ?ops, unfolded take_all [OF order_refl]]
  show ?thesis by (elim conjE)
qed

theorem add_move_keep_ids_unique_counterexample:
  "one_shelf_each
     [(''current'', []), (''want'', [sample_book ''b1'' None None, sample_book ''b1'' (Some 7) None]),
      (''finished'', [])]
   \<and> step (Move ''b1'' ''want'' ''finished'')
       \<lparr>library = [(''current'', []),
                   (''want'', [sample_book ''b1'' None None, sample_book ''b1'' (Some 7) None]),
                   (''finished'', [])],
        storage = Stored [(''current'', []),
                   (''want'', [sample_book ''b1'' None None, sample_book ''b1'' (Some 7) None]),
                   (''finished'', [])]\<rparr>
     = \<lparr>library = [(''current'', []),
                   (''want'', [sample_book ''b1'' None None, sample_book ''b1'' (Some 7) None]),
                   (''finished'', [])],
        storage = Stored [(''current'', []), (''want'', [sample_book ''b1'' (Some 7) None]),
                   (''finished'', [sample_book ''b1'' None None])]\<rparr>
   \<and> \<not> one_shelf_each
         [(''current'', []), (''want'', [sample_book ''b1'' (Some 7) None]),
          (''finished'', [sample_book ''b1'' None None])]"
proof -
  let ?L = "[(''current'', []), (''want'', [sample_book ''b1'' None None, sample_book ''b1'' (Some 7) None]),
      (''finished'', [])]"
  let ?L' = "[(''current'', []), (''want'', [sample_book ''b1'' (Some 7) None]),
          (''finished'', [sample_book ''b1'' None None])]"
  have sb: "shelf_books ?L k
              = (if k = ''want'' then [sample_book ''b1'' None None, sample_book ''b1'' (Some 7) None] else [])"
    for k by (simp add: shelf_books_def)
  have 1: "one_shelf_each ?L"
    unfolding one_shelf_each_def sb by simp
  have 2: "step (Move ''b1'' ''want'' ''finished'') \<lparr>library = ?L, storage = Stored ?L\<rparr>
             = \<lparr>library = ?L, storage = Stored ?L'\<rparr>"
    by (simp add: moveBook_def parsed_or_empty_def ensure_shelf_def shelf_books_def sample_book_def)
  have 3: "\<not> one_shelf_each ?L'"
  proof
    assume "one_shelf_each ?L'"
    from this [unfolded one_shelf_each_def, rule_format, of "''want''" "''finished''"]
    show False by (simp add: shelf_books_def sample_book_def)
  qed
  from 1 2 3 show ?thesis by blast
qed

end
